theory Spec2Isabelle
  imports Complex_Main "HOL-Library.Char_ord" "HOL-Library.List_Lexorder"
begin

section \<open>Python values shared by both programs\<close>

text \<open>
  The harvester (\<^verbatim>\<open>fetch.py\<close>) and the flattener (\<^verbatim>\<open>merge.py\<close>) are sequential Python
  programs whose only inputs are the answers of a browser automation surface and of the
  file system. Those answers are data of the model: every call that can raise returns a
  value of \<open>exn + 'a\<close>, with \<open>Inl\<close> the exception, and every handler of the source is a
  case distinction on it. Printing, logging, the pauses and the operator prompt do not
  influence any result and are left out, as is an interrupt from the keyboard. A
  collection scope is given by its directory; how the directory's name is derived from
  the URL is not modelled.
\<close>

datatype exn =
    NoSuchElementException
  | StaleElementReferenceException
  | WebDriverException
  | OSError
  | JSONDecodeError
  | TypeError
  | AttributeError
  | NotADirectoryError

type_synonym 'a result = "exn + 'a"

text \<open>
  Strings are lists of characters read as code points below 256. \<open>py_isspace\<close> lists the
  code points in that range that \<^verbatim>\<open>str.strip()\<close> removes.
\<close>

definition py_isspace :: "char \<Rightarrow> bool" where
  "py_isspace c = (c \<in> {CHR '' '', CHR 0x09, CHR 0x0A, CHR 0x0B, CHR 0x0C, CHR 0x0D,
                         CHR 0x1C, CHR 0x1D, CHR 0x1E, CHR 0x1F, CHR 0x85, CHR 0xA0})"

definition strip :: "string \<Rightarrow> string" where
  "strip s = rev (dropWhile py_isspace (rev (dropWhile py_isspace s)))"

fun join :: "string \<Rightarrow> string list \<Rightarrow> string" where
  "join sep [] = []"
| "join sep [x] = x"
| "join sep (x # y # ys) = x @ sep @ join sep (y # ys)"

text \<open>
  \<^verbatim>\<open>'\n'.join([p.text.strip() for p in paragraphs if p.text.strip()])\<close>, used for the body
  of a post and for the text of a comment.
\<close>

definition paragraph_text :: "string list \<Rightarrow> string" where
  "paragraph_text paragraphs =
     join [CHR 0x0A] (map strip (filter (\<lambda>p. strip p \<noteq> []) paragraphs))"

text \<open>\<^verbatim>\<open>xs[:n]\<close> for a Python integer \<open>n\<close>: a negative \<open>n\<close> counts from the end.\<close>

definition py_take :: "int \<Rightarrow> 'a list \<Rightarrow> 'a list" where
  "py_take n xs = (if n < 0 then take (nat (int (length xs) + n)) xs else take (nat n) xs)"

section \<open>The harvester: data\<close>

subsection \<open>Comment nodes and item records\<close>

datatype comment =
  Comment (c_text: "string option") (c_votes: "string option") (c_replies: "comment list")

text \<open>
  The dictionary \<^verbatim>\<open>post_data\<close>. The key \<^verbatim>\<open>id\<close> is absent until \<^verbatim>\<open>save_post\<close> sets it.
\<close>

record post_data =
  url :: string
  hash :: string
  scraped_at :: string
  title :: "string option"
  description :: "string option"
  votes :: "string option"
  comments :: "comment list"
  item_id :: "int option"

text \<open>An element of the list that discovery returns: \<^verbatim>\<open>{'url': link, 'votes_preview': None}\<close>.\<close>

record link_info =
  link_url :: string
  votes_preview :: "string option"

subsection \<open>Files of one collection scope\<close>

text \<open>
  A file is absent, holds a value, or is unreadable (a write that failed after the file
  was opened leaves it truncated). A write can fail when the file is opened, leaving the
  disk as it was, or while the content is dumped.
\<close>

datatype 'a disk_file = Absent | Corrupt | Holds 'a

datatype write_fault = WriteOk | OpenFails | DumpFails

definition write_file :: "write_fault \<Rightarrow> 'a \<Rightarrow> 'a disk_file \<Rightarrow> unit result \<times> 'a disk_file" where
  "write_file w v old =
     (case w of
        WriteOk \<Rightarrow> (Inr (), Holds v)
      | OpenFails \<Rightarrow> (Inl OSError, old)
      | DumpFails \<Rightarrow> (Inl OSError, Corrupt))"

text \<open>
  The scope directory \<^verbatim>\<open>community_dir\<close>: the item files \<^verbatim>\<open><id>.json\<close>, the tracker
  \<^verbatim>\<open>id_tracker.json\<close> (an object that may lack the key \<^verbatim>\<open>next_id\<close>) and the tracker
  \<^verbatim>\<open>hash_tracker.json\<close> (an object that may lack the key \<^verbatim>\<open>hashes\<close>; the list it holds
  is read back as a set).
\<close>

record scope_dir =
  item_files :: "int \<Rightarrow> post_data disk_file"
  id_tracker_file :: "int option disk_file"
  hash_tracker_file :: "string set option disk_file"

text \<open>The fields of \<^verbatim>\<open>RedditFetcher\<close> that \<^verbatim>\<open>_setup_community_dir\<close> sets.\<close>

record fetcher =
  next_id :: int
  collected_hashes :: "string set"
  community_dir :: scope_dir

text \<open>The outcome of the three writes of one \<^verbatim>\<open>save_post\<close> call, given by the file system.\<close>

record io_faults =
  item_write :: write_fault
  id_write :: write_fault
  hash_write :: write_fault

section \<open>The harvester: identity and dedup store\<close>

definition load_next_id :: "scope_dir \<Rightarrow> int result" where
  "load_next_id d =
     (case id_tracker_file d of
        Absent \<Rightarrow> Inr 1
      | Corrupt \<Rightarrow> Inl JSONDecodeError
      | Holds data \<Rightarrow> Inr (case data of None \<Rightarrow> 1 | Some n \<Rightarrow> n))"

definition load_collected_hashes :: "scope_dir \<Rightarrow> string set result" where
  "load_collected_hashes d =
     (case hash_tracker_file d of
        Absent \<Rightarrow> Inr {}
      | Corrupt \<Rightarrow> Inl JSONDecodeError
      | Holds data \<Rightarrow> Inr (case data of None \<Rightarrow> {} | Some hs \<Rightarrow> hs))"

definition save_next_id :: "write_fault \<Rightarrow> fetcher \<Rightarrow> unit result \<times> fetcher" where
  "save_next_id w self =
     (case write_file w (Some (next_id self)) (id_tracker_file (community_dir self)) of
        (r, f) \<Rightarrow> (r, self\<lparr>community_dir := (community_dir self)\<lparr>id_tracker_file := f\<rparr>\<rparr>))"

definition save_collected_hashes :: "write_fault \<Rightarrow> fetcher \<Rightarrow> unit result \<times> fetcher" where
  "save_collected_hashes w self =
     (case write_file w (Some (collected_hashes self)) (hash_tracker_file (community_dir self)) of
        (r, f) \<Rightarrow> (r, self\<lparr>community_dir := (community_dir self)\<lparr>hash_tracker_file := f\<rparr>\<rparr>))"

text \<open>
  The tracker part of \<^verbatim>\<open>_setup_community_dir\<close>: the directory of the scope is given, the
  counter and the fingerprint set are loaded from it.
\<close>

definition setup_community_dir :: "scope_dir \<Rightarrow> fetcher result" where
  "setup_community_dir d =
     (case load_next_id d of
        Inl e \<Rightarrow> Inl e
      | Inr n \<Rightarrow>
          (case load_collected_hashes d of
             Inl e \<Rightarrow> Inl e
           | Inr hs \<Rightarrow> Inr \<lparr>next_id = n, collected_hashes = hs, community_dir = d\<rparr>))"

section \<open>The harvester: item store writer\<close>

text \<open>
  \<^verbatim>\<open>save_post\<close> returns the id it used, or the exception it raised, together with the
  fetcher as the call left it. The debug line
  \<^verbatim>\<open>post_data.get('title', 'N/A')[:50]\<close> subscripts the title, which raises
  \<^verbatim>\<open>TypeError\<close> for a post whose title is \<^verbatim>\<open>None\<close>, before anything is written.
\<close>

definition save_post :: "io_faults \<Rightarrow> post_data \<Rightarrow> fetcher \<Rightarrow> int result \<times> fetcher" where
  "save_post io post self =
     (let post_id = next_id self in
      case title post of
        None \<Rightarrow> (Inl TypeError, self)
      | Some t \<Rightarrow>
          (case write_file (item_write io) (post\<lparr>item_id := Some post_id\<rparr>)
                  (item_files (community_dir self) post_id) of
             (Inl e, f) \<Rightarrow>
               (Inl e, self\<lparr>community_dir := (community_dir self)
                  \<lparr>item_files := (item_files (community_dir self))(post_id := f)\<rparr>\<rparr>)
           | (Inr u, f) \<Rightarrow>
               (let self1 = self\<lparr>community_dir := (community_dir self)
                      \<lparr>item_files := (item_files (community_dir self))(post_id := f)\<rparr>\<rparr>;
                    self2 = self1\<lparr>collected_hashes := insert (hash post) (collected_hashes self1)\<rparr>;
                    self3 = self2\<lparr>next_id := next_id self2 + 1\<rparr>
                in case save_next_id (id_write io) self3 of
                     (Inl e, self4) \<Rightarrow> (Inl e, self4)
                   | (Inr u, self4) \<Rightarrow>
                       (case save_collected_hashes (hash_write io) self4 of
                          (Inl e, self5) \<Rightarrow> (Inl e, self5)
                        | (Inr u, self5) \<Rightarrow> (Inr post_id, self5)))))"

section \<open>The harvester: discovery loop\<close>

text \<open>
  What the rendering surface answers during one iteration of the \<^verbatim>\<open>while\<close> loop of
  \<^verbatim>\<open>collect_post_links\<close>: the containers \<^verbatim>\<open>find_elements\<close> returns, each with the outcome
  of reading its link (\<^verbatim>\<open>find_element\<close> and \<^verbatim>\<open>get_attribute('href')\<close>, which may return
  \<^verbatim>\<open>None\<close>), and the two content heights \<^verbatim>\<open>scroll_and_wait\<close> reads before and after
  scrolling.
\<close>

record cycle =
  post_containers :: "string option result list result"
  scroll_heights :: "(int \<times> int) result"

text \<open>
  The local variables of \<^verbatim>\<open>collect_post_links\<close>, and the calls the loop has issued to
  the surface so far, oldest first: \<open>FindContainers\<close> for the \<^verbatim>\<open>find_elements\<close> that
  opens an iteration, \<open>ScrollToBottom\<close> for a \<^verbatim>\<open>scroll_and_wait\<close>.
\<close>

datatype surface_call = FindContainers | ScrollToBottom

record discovery =
  collected_links :: "link_info list"
  seen_links :: "string set"
  scroll_attempts :: nat
  surface_calls :: "surface_call list"

definition max_scroll_attempts :: nat where
  "max_scroll_attempts = 50"

definition scroll_and_wait :: "(int \<times> int) result \<Rightarrow> bool result" where
  "scroll_and_wait heights =
     (case heights of
        Inl e \<Rightarrow> Inl e
      | Inr (last_height, new_height) \<Rightarrow> Inr (new_height \<noteq> last_height))"

text \<open>
  The \<^verbatim>\<open>for container in post_containers\<close> loop. \<open>generate_hash\<close> stands for
  \<^verbatim>\<open>_generate_hash\<close> (the MD5 digest of the link) and \<open>hashes\<close> for
  \<^verbatim>\<open>self.collected_hashes\<close>. The result is the exception that left the loop, if one did,
  and the variables as the loop left them.
\<close>

fun scan_containers ::
  "(string \<Rightarrow> string) \<Rightarrow> string set \<Rightarrow> int \<Rightarrow> string option result list \<Rightarrow> discovery
     \<Rightarrow> exn option \<times> discovery" where
  "scan_containers generate_hash hashes count [] d = (None, d)"
| "scan_containers generate_hash hashes count (container # rest) d =
     (case container of
        Inl e \<Rightarrow>
          if e = StaleElementReferenceException \<or> e = NoSuchElementException
          then scan_containers generate_hash hashes count rest d
          else (Some e, d)
      | Inr None \<Rightarrow> scan_containers generate_hash hashes count rest d
      | Inr (Some link) \<Rightarrow>
          if link \<noteq> [] \<and> link \<notin> seen_links d then
            (let post_hash = generate_hash link in
             if post_hash \<notin> hashes then
               (let d' = d\<lparr>collected_links :=
                             collected_links d @ [\<lparr>link_url = link, votes_preview = None\<rparr>],
                           seen_links := insert link (seen_links d)\<rparr>
                in if int (length (collected_links d')) \<ge> count then (None, d')
                   else scan_containers generate_hash hashes count rest d')
             else scan_containers generate_hash hashes count rest d)
          else scan_containers generate_hash hashes count rest d)"

text \<open>
  The \<^verbatim>\<open>while\<close> loop. The iteration that starts with \<^verbatim>\<open>scroll_attempts = k\<close> is
  answered by \<open>listing k\<close>: every iteration that does not leave the loop adds one to
  \<^verbatim>\<open>scroll_attempts\<close>.
\<close>

function discovery_loop ::
  "(string \<Rightarrow> string) \<Rightarrow> string set \<Rightarrow> (nat \<Rightarrow> cycle) \<Rightarrow> int \<Rightarrow> discovery \<Rightarrow> discovery" where
  "discovery_loop generate_hash hashes listing count d =
     (if int (length (collected_links d)) < count \<and> scroll_attempts d < max_scroll_attempts then
        (let d0 = d\<lparr>surface_calls := surface_calls d @ [FindContainers]\<rparr> in
         case post_containers (listing (scroll_attempts d)) of
           Inl e \<Rightarrow>
             discovery_loop generate_hash hashes listing count
               (d0\<lparr>scroll_attempts := scroll_attempts d + 1\<rparr>)
         | Inr containers \<Rightarrow>
             (case scan_containers generate_hash hashes count containers d0 of
                (Some e, d1) \<Rightarrow>
                  discovery_loop generate_hash hashes listing count
                    (d1\<lparr>scroll_attempts := scroll_attempts d + 1\<rparr>)
              | (None, d1) \<Rightarrow>
                  if int (length (collected_links d1)) \<ge> count then d1
                  else
                    (let d2 = d1\<lparr>surface_calls := surface_calls d1 @ [ScrollToBottom]\<rparr> in
                     case scroll_and_wait (scroll_heights (listing (scroll_attempts d))) of
                       Inl e \<Rightarrow>
                         discovery_loop generate_hash hashes listing count
                           (d2\<lparr>scroll_attempts := scroll_attempts d + 1\<rparr>)
                     | Inr has_more_content \<Rightarrow>
                         if \<not> has_more_content
                         then d2\<lparr>scroll_attempts := scroll_attempts d + 1\<rparr>
                         else
                           discovery_loop generate_hash hashes listing count
                             (d2\<lparr>scroll_attempts := scroll_attempts d + 1\<rparr>))))
      else d)"
  by pat_completeness auto
termination
  by (relation "measure (\<lambda>(generate_hash, hashes, listing, count, d).
                  max_scroll_attempts - scroll_attempts d)") auto

declare discovery_loop.simps [simp del]

text \<open>
  \<^verbatim>\<open>collect_post_links\<close>: the trackers are loaded, the listing is opened
  (\<open>get_fault\<close> is the exception of \<^verbatim>\<open>driver.get\<close>, if it raised), the loop runs on
  fresh variables, and the list is cut to \<^verbatim>\<open>count\<close>. The result holds the links, the
  fetcher that was set up, and the calls issued to the surface.
\<close>

definition collect_post_links ::
  "(string \<Rightarrow> string) \<Rightarrow> exn option \<Rightarrow> (nat \<Rightarrow> cycle) \<Rightarrow> scope_dir \<Rightarrow> int
     \<Rightarrow> (link_info list \<times> fetcher \<times> surface_call list) result" where
  "collect_post_links generate_hash get_fault listing dir count =
     (case setup_community_dir dir of
        Inl e \<Rightarrow> Inl e
      | Inr self \<Rightarrow>
          (case get_fault of
             Some e \<Rightarrow> Inl e
           | None \<Rightarrow>
               (let d = discovery_loop generate_hash (collected_hashes self) listing count
                          \<lparr>collected_links = [], seen_links = {}, scroll_attempts = 0,
                           surface_calls = []\<rparr>
                in Inr (py_take count (collected_links d), self, surface_calls d))))"

section \<open>The harvester: tree extractor\<close>

text \<open>
  A \<^verbatim>\<open>shreddit-comment\<close> element as the surface shows it: the outcome of reading its body
  (the texts of its paragraphs and its raw text), of reading its vote element (the
  attribute \<^verbatim>\<open>number\<close> and the text), and of listing its direct child comments.
\<close>

datatype comment_element =
  CommentElement
    (body_read: "(string list \<times> string) result")
    (vote_read: "(string option \<times> string) result")
    (nested_read: "comment_element list result")

definition comment_text :: "(string list \<times> string) result \<Rightarrow> string option result" where
  "comment_text body =
     (case body of
        Inl e \<Rightarrow> if e = NoSuchElementException then Inr None else Inl e
      | Inr (paragraphs, raw) \<Rightarrow>
          (let text = paragraph_text paragraphs
           in Inr (Some (if text = [] then strip raw else text))))"

definition comment_votes :: "(string option \<times> string) result \<Rightarrow> string option result" where
  "comment_votes vote =
     (case vote of
        Inl e \<Rightarrow> if e = NoSuchElementException then Inr None else Inl e
      | Inr (number, txt) \<Rightarrow>
          (let vote_text = (case number of None \<Rightarrow> txt | Some n \<Rightarrow> if n = [] then txt else n)
           in Inr (Some (strip vote_text))))"

text \<open>
  \<^verbatim>\<open>_extract_single_comment\<close> returns \<^verbatim>\<open>None\<close> when its body raised. \<open>extract_each\<close> is
  the loop over a list of elements that both \<^verbatim>\<open>extract_comments\<close> and
  \<^verbatim>\<open>_extract_single_comment\<close> run: an element whose extraction returned \<^verbatim>\<open>None\<close> is
  not appended.
\<close>

fun extract_single_comment :: "comment_element \<Rightarrow> comment option"
  and extract_each :: "comment_element list \<Rightarrow> comment list" where
  "extract_single_comment (CommentElement body vote nested) =
     (case comment_text body of
        Inl e \<Rightarrow> None
      | Inr text \<Rightarrow>
          (case comment_votes vote of
             Inl e \<Rightarrow> None
           | Inr vote_text \<Rightarrow>
               Some (Comment text vote_text
                      (case nested of Inl e \<Rightarrow> [] | Inr nested_comments \<Rightarrow> extract_each nested_comments))))"
| "extract_each [] = []"
| "extract_each (element # rest) =
     (case extract_single_comment element of
        None \<Rightarrow> extract_each rest
      | Some comment_data \<Rightarrow> comment_data # extract_each rest)"

text \<open>
  \<^verbatim>\<open>extract_comments\<close>: \<open>tree\<close> is the outcome of locating the comment tree and listing
  its top-level comments.
\<close>

definition extract_comments :: "comment_element list result \<Rightarrow> comment list" where
  "extract_comments tree =
     (case tree of
        Inl e \<Rightarrow> if e = NoSuchElementException then [] else []
      | Inr top_level_comments \<Rightarrow> extract_each top_level_comments)"

text \<open>\<^verbatim>\<open>_count_comments\<close>: the number of nodes of a list of trees, printed as progress.\<close>

fun count_comment :: "comment \<Rightarrow> nat" and count_comments :: "comment list \<Rightarrow> nat" where
  "count_comment (Comment t v rs) = 1 + count_comments rs"
| "count_comments [] = 0"
| "count_comments (c # cs) = count_comment c + count_comments cs"

section \<open>The harvester: item extractor\<close>

text \<open>A \<^verbatim>\<open>faceplate-number\<close> element: its text and its attribute \<^verbatim>\<open>number\<close>.\<close>

record faceplate =
  fp_text :: string
  fp_number :: "string option"

text \<open>
  What the surface answers for one post page: whether the tab opened and the page loaded,
  the clock, the title element's text, the texts of the body's paragraphs, the three
  places the score is read from, the first exception of the five comment-loading scrolls,
  the comment tree, and the exception of closing the tab.
\<close>

record page =
  page_load :: "exn option"
  clock :: string
  title_read :: "string result"
  text_body_read :: "string list result"
  info_row_read :: "faceplate result"
  post_faceplate_read :: "faceplate result"
  score_attribute_read :: "string option result"
  comment_scrolls :: "exn option"
  comment_tree_read :: "comment_element list result"
  tab_close :: "exn option"

definition faceplate_count :: "faceplate \<Rightarrow> string option" where
  "faceplate_count vote_element =
     (let vote_count = strip (fp_text vote_element)
      in if vote_count = [] then fp_number vote_element else Some vote_count)"

text \<open>
  The score block of \<^verbatim>\<open>extract_post_data\<close>. A strategy hands over to the next one only
  through \<^verbatim>\<open>NoSuchElementException\<close>; any other exception of the first two strategies
  reaches the outer handler, which takes \<^verbatim>\<open>votes_preview\<close>; the third strategy swallows
  every exception.
\<close>

definition extract_votes :: "page \<Rightarrow> string option \<Rightarrow> string option" where
  "extract_votes pg preview =
     (case info_row_read pg of
        Inr vote_element \<Rightarrow> faceplate_count vote_element
      | Inl e1 \<Rightarrow>
          if e1 = NoSuchElementException then
            (case post_faceplate_read pg of
               Inr vote_element \<Rightarrow> faceplate_count vote_element
             | Inl e2 \<Rightarrow>
                 if e2 = NoSuchElementException then
                   (case score_attribute_read pg of
                      Inr score \<Rightarrow> score
                    | Inl e3 \<Rightarrow> None)
                 else preview)
          else preview)"

text \<open>The outer \<^verbatim>\<open>except Exception\<close> handler of the score block is reached.\<close>

definition votes_fallback_taken :: "page \<Rightarrow> bool" where
  "votes_fallback_taken pg =
     (case info_row_read pg of
        Inr vote_element \<Rightarrow> False
      | Inl e1 \<Rightarrow>
          if e1 = NoSuchElementException then
            (case post_faceplate_read pg of
               Inr vote_element \<Rightarrow> False
             | Inl e2 \<Rightarrow> e2 \<noteq> NoSuchElementException)
          else True)"

definition extract_post_data ::
  "(string \<Rightarrow> string) \<Rightarrow> page \<Rightarrow> string \<Rightarrow> string option \<Rightarrow> post_data option" where
  "extract_post_data generate_hash pg post_url preview =
     (case page_load pg of
        Some e \<Rightarrow> None
      | None \<Rightarrow>
          (case (case title_read pg of
                   Inr t \<Rightarrow> Inr (Some (strip t))
                 | Inl e \<Rightarrow> if e = NoSuchElementException then Inr None else Inl e) of
             Inl e \<Rightarrow> None
           | Inr title_value \<Rightarrow>
               (case (case text_body_read pg of
                        Inr paragraphs \<Rightarrow> Inr (Some (paragraph_text paragraphs))
                      | Inl e \<Rightarrow> if e = NoSuchElementException then Inr None else Inl e) of
                  Inl e \<Rightarrow> None
                | Inr description_value \<Rightarrow>
                    (let votes_value = extract_votes pg preview in
                     case comment_scrolls pg of
                       Some e \<Rightarrow> None
                     | None \<Rightarrow>
                         (let comments_value = extract_comments (comment_tree_read pg) in
                          case tab_close pg of
                            Some e \<Rightarrow> None
                          | None \<Rightarrow>
                              Some \<lparr>url = post_url, hash = generate_hash post_url,
                                    scraped_at = clock pg, title = title_value,
                                    description = description_value, votes = votes_value,
                                    comments = comments_value, item_id = None\<rparr>)))))"

section \<open>The harvester: orchestrator and command line\<close>

text \<open>
  Everything outside the program during one run: whether constructing the
  \<^verbatim>\<open>RedditFetcher\<close> raises (it creates the data directory), whether creating the browser
  raises (installing the driver and \<^verbatim>\<open>webdriver.Chrome\<close>), whether \<^verbatim>\<open>maximize_window\<close>
  raises on the browser created, the listing, the post page behind each link, the write
  faults met when the item with a given id is saved, and whether closing the browser
  raises.
\<close>

record world =
  fetcher_init :: "exn option"
  driver_start :: "exn option"
  window_maximize :: "exn option"
  listing_load :: "exn option"
  listing_cycles :: "nat \<Rightarrow> cycle"
  post_pages :: "string \<Rightarrow> page"
  disk_faults :: "int \<Rightarrow> io_faults"
  driver_quit :: "exn option"

text \<open>
  The \<^verbatim>\<open>for\<close> loop of \<^verbatim>\<open>fetch_posts\<close> with its two counters. An exception of
  \<^verbatim>\<open>save_post\<close> leaves the loop; a failed extraction does not.
\<close>

fun process_posts ::
  "(string \<Rightarrow> string) \<Rightarrow> world \<Rightarrow> link_info list \<Rightarrow> fetcher \<Rightarrow> nat \<Rightarrow> nat
     \<Rightarrow> (nat \<times> nat) result \<times> fetcher" where
  "process_posts generate_hash w [] self successful failed = (Inr (successful, failed), self)"
| "process_posts generate_hash w (post_info # rest) self successful failed =
     (case extract_post_data generate_hash (post_pages w (link_url post_info)) (link_url post_info)
             (votes_preview post_info) of
        None \<Rightarrow> process_posts generate_hash w rest self successful (failed + 1)
      | Some post \<Rightarrow>
          (case save_post (disk_faults w (next_id self)) post self of
             (Inl e, self') \<Rightarrow> (Inl e, self')
           | (Inr post_id, self') \<Rightarrow>
               process_posts generate_hash w rest self' (successful + 1) failed))"

datatype run_report =
    NoLinksFound
  | ScrapingComplete nat nat
  | ErrorReported exn

text \<open>
  \<^verbatim>\<open>setup_driver\<close>: its outcome, and whether \<^verbatim>\<open>self.driver\<close> is set when it is left. The
  attribute is assigned as soon as \<^verbatim>\<open>webdriver.Chrome\<close> has returned, before
  \<^verbatim>\<open>maximize_window\<close> is called, so it is set also when that call raises.
\<close>

definition setup_driver :: "world \<Rightarrow> unit result \<times> bool" where
  "setup_driver w =
     (case driver_start w of
        Some e \<Rightarrow> (Inl e, False)
      | None \<Rightarrow>
          (case window_maximize w of
             Some e \<Rightarrow> (Inl e, True)
           | None \<Rightarrow> (Inr (), True)))"

text \<open>
  \<^verbatim>\<open>fetch_posts\<close>: the body of the \<^verbatim>\<open>try\<close>, the handler that reports any exception, and
  the \<^verbatim>\<open>finally\<close> block, whose \<^verbatim>\<open>driver.quit()\<close> is the only call that can raise out of
  the method; it is made whenever \<^verbatim>\<open>self.driver\<close> is set. The scope directory is
  returned as the run left it.
\<close>

definition fetch_posts_body ::
  "(string \<Rightarrow> string) \<Rightarrow> world \<Rightarrow> scope_dir \<Rightarrow> int \<Rightarrow> run_report \<times> scope_dir" where
  "fetch_posts_body generate_hash w dir count =
     (case fst (setup_driver w) of
        Inl e \<Rightarrow> (ErrorReported e, dir)
      | Inr u \<Rightarrow>
          (case collect_post_links generate_hash (listing_load w) (listing_cycles w) dir count of
             Inl e \<Rightarrow> (ErrorReported e, dir)
           | Inr (post_links, self, calls) \<Rightarrow>
               if post_links = [] then (NoLinksFound, dir)
               else
                 (case process_posts generate_hash w post_links self 0 0 of
                    (Inl e, self') \<Rightarrow> (ErrorReported e, community_dir self')
                  | (Inr (successful, failed), self') \<Rightarrow>
                      (ScrapingComplete successful failed, community_dir self'))))"

definition fetch_posts ::
  "(string \<Rightarrow> string) \<Rightarrow> world \<Rightarrow> scope_dir \<Rightarrow> int \<Rightarrow> run_report result \<times> scope_dir" where
  "fetch_posts generate_hash w dir count =
     (case fetch_posts_body generate_hash w dir count of
        (report, dir') \<Rightarrow>
          if snd (setup_driver w) then
            (case driver_quit w of
               Some e \<Rightarrow> (Inl e, dir')
             | None \<Rightarrow> (Inr report, dir'))
          else (Inr report, dir'))"

text \<open>
  The command line as \<^verbatim>\<open>argparse\<close> hands it over: \<open>ArgumentError\<close> when it rejects the
  arguments (it then exits with status 2), the parsed values otherwise. \<open>fetch_main\<close> is
  \<^verbatim>\<open>exit(main())\<close> of \<^verbatim>\<open>fetch.py\<close>: the exit status of the process (1 for an exception
  nobody caught, as one raised while the fetcher is constructed) and the scope directory.
\<close>

datatype fetch_args =
    ArgumentError
  | Arguments (collection_url: string) (target_count: int)

definition fetch_main ::
  "(string \<Rightarrow> string) \<Rightarrow> world \<Rightarrow> scope_dir \<Rightarrow> fetch_args \<Rightarrow> int \<times> scope_dir" where
  "fetch_main generate_hash w dir args =
     (case args of
        ArgumentError \<Rightarrow> (2, dir)
      | Arguments from_url count \<Rightarrow>
          if count \<le> 0 then (1, dir)
          else
            (case fetcher_init w of
               Some e \<Rightarrow> (1, dir)
             | None \<Rightarrow>
                 (case fetch_posts generate_hash w dir count of
                    (Inl e, dir') \<Rightarrow> (1, dir')
                  | (Inr report, dir') \<Rightarrow> (0, dir'))))"

section \<open>The flattener\<close>

subsection \<open>Parsed item files\<close>

text \<open>The values \<^verbatim>\<open>json.load\<close> returns.\<close>

datatype json =
    JNull
  | JBool bool
  | JInt int
  | JFloat real
  | JStr string
  | JList "json list"
  | JDict "(string \<times> json) list"

text \<open>Python's truth value of a parsed value, as \<^verbatim>\<open>not comments\<close> reads it.\<close>

fun truthy :: "json \<Rightarrow> bool" where
  "truthy JNull = False"
| "truthy (JBool b) = b"
| "truthy (JInt n) = (n \<noteq> 0)"
| "truthy (JFloat r) = (r \<noteq> 0)"
| "truthy (JStr s) = (s \<noteq> [])"
| "truthy (JList xs) = (xs \<noteq> [])"
| "truthy (JDict kvs) = (kvs \<noteq> [])"

text \<open>\<^verbatim>\<open>len(v)\<close>: defined for strings, lists and dictionaries, \<^verbatim>\<open>TypeError\<close> otherwise.\<close>

fun py_len :: "json \<Rightarrow> nat result" where
  "py_len (JStr s) = Inr (length s)"
| "py_len (JList xs) = Inr (length xs)"
| "py_len (JDict kvs) = Inr (length kvs)"
| "py_len v = Inl TypeError"

subsection \<open>Field defaulting\<close>

text \<open>
  \<open>dumps\<close> stands for \<^verbatim>\<open>json.dumps(_, ensure_ascii=False)\<close> and \<open>py_str\<close> for Python's
  \<^verbatim>\<open>str\<close>; both are library functions and parameters here. The length test of
  \<^verbatim>\<open>_comments_to_json_string\<close> stands before its \<^verbatim>\<open>try\<close>, so its \<^verbatim>\<open>TypeError\<close> leaves
  the method.
\<close>

definition comments_to_json_string :: "(json \<Rightarrow> string result) \<Rightarrow> json \<Rightarrow> string result" where
  "comments_to_json_string dumps comments_value =
     (if comments_value = JNull then Inr ''[]''
      else if \<not> truthy comments_value then Inr ''[]''
      else
        (case py_len comments_value of
           Inl e \<Rightarrow> Inl e
         | Inr n \<Rightarrow>
             if n = 0 then Inr ''[]''
             else (case dumps comments_value of Inl e \<Rightarrow> Inr ''[]'' | Inr s \<Rightarrow> Inr s)))"

definition handle_null_value :: "(json \<Rightarrow> string) \<Rightarrow> json \<Rightarrow> string \<Rightarrow> string" where
  "handle_null_value py_str v default_value =
     (case v of
        JNull \<Rightarrow> default_value
      | JStr s \<Rightarrow> if strip s = [] then default_value else strip s
      | JList xs \<Rightarrow> if length xs = 0 then default_value else py_str v
      | JDict kvs \<Rightarrow> if length kvs = 0 then default_value else py_str v
      | _ \<Rightarrow> py_str v)"

record flat_record =
  auto_id :: int
  category :: string
  flat_title :: string
  flat_description :: string
  flat_votes :: string
  flat_comments :: string
  flat_url :: string

text \<open>
  \<^verbatim>\<open>_process_json_file\<close> on the outcome of opening and parsing the file: the record, or
  \<^verbatim>\<open>None\<close> when anything raised, and the row counter, advanced only with a record.
  \<^verbatim>\<open>data.get\<close> returns \<^verbatim>\<open>None\<close> for a missing key and exists only for a dictionary: on
  any other parsed value the first call raises \<^verbatim>\<open>AttributeError\<close>.
\<close>

definition process_json_file ::
  "(json \<Rightarrow> string) \<Rightarrow> (json \<Rightarrow> string result) \<Rightarrow> json result \<Rightarrow> string \<Rightarrow> int
     \<Rightarrow> flat_record option \<times> int" where
  "process_json_file py_str dumps content category_name next_auto_id =
     (case content of
        Inl e \<Rightarrow> (None, next_auto_id)
      | Inr data \<Rightarrow>
          (case data of
             JDict kvs \<Rightarrow>
               (let field = (\<lambda>k. case map_of kvs k of None \<Rightarrow> JNull | Some v \<Rightarrow> v) in
                case comments_to_json_string dumps (field ''comments'') of
                  Inl e \<Rightarrow> (None, next_auto_id)
                | Inr comments_string \<Rightarrow>
                    (Some \<lparr>auto_id = next_auto_id, category = category_name,
                           flat_title = handle_null_value py_str (field ''title'') [],
                           flat_description = handle_null_value py_str (field ''description'') [],
                           flat_votes = handle_null_value py_str (field ''votes'') [],
                           flat_comments = comments_string,
                           flat_url = handle_null_value py_str (field ''url'') []\<rparr>,
                     next_auto_id + 1))
           | _ \<Rightarrow> (None, next_auto_id)))"

subsection \<open>Scanning the data directory\<close>

text \<open>
  A directory entry is a file, given by the outcome of opening and parsing it, or a
  directory, given by its entries in the order the file system lists them.
\<close>

datatype fs_entry =
    File "json result"
  | Dir "(string \<times> fs_entry) list"

fun is_dir :: "fs_entry \<Rightarrow> bool" where
  "is_dir (Dir entries) = True"
| "is_dir (File content) = False"

definition ends_with :: "string \<Rightarrow> string \<Rightarrow> bool" where
  "ends_with suffix_text s =
     (length suffix_text \<le> length s \<and> drop (length s - length suffix_text) s = suffix_text)"

text \<open>The state of \<^verbatim>\<open>RedditDataMerger\<close>: the records collected and the next row id.\<close>

record merger =
  records :: "flat_record list"
  merger_auto_id :: int

text \<open>
  The loop of \<^verbatim>\<open>_scan_category_folder\<close> over the item files. A name matched by
  \<^verbatim>\<open>*.json\<close> that is a directory cannot be opened as a file.
\<close>

fun scan_files ::
  "(json \<Rightarrow> string) \<Rightarrow> (json \<Rightarrow> string result) \<Rightarrow> string \<Rightarrow> (string \<times> fs_entry) list
     \<Rightarrow> merger \<Rightarrow> nat \<Rightarrow> nat \<times> merger" where
  "scan_files py_str dumps category_name [] m files_processed = (files_processed, m)"
| "scan_files py_str dumps category_name ((name, entry) # rest) m files_processed =
     (case process_json_file py_str dumps
             (case entry of File content \<Rightarrow> content | Dir entries \<Rightarrow> Inl OSError)
             category_name (merger_auto_id m) of
        (None, a) \<Rightarrow> scan_files py_str dumps category_name rest (m\<lparr>merger_auto_id := a\<rparr>) files_processed
      | (Some record_value, a) \<Rightarrow>
          scan_files py_str dumps category_name rest
            (m\<lparr>records := records m @ [record_value], merger_auto_id := a\<rparr>)
            (files_processed + 1))"

definition scan_category_folder ::
  "(json \<Rightarrow> string) \<Rightarrow> (json \<Rightarrow> string result) \<Rightarrow> fs_entry \<Rightarrow> string \<Rightarrow> merger
     \<Rightarrow> nat \<times> merger" where
  "scan_category_folder py_str dumps category_path category_name m =
     (case category_path of
        File content \<Rightarrow> (0, m)
      | Dir entries \<Rightarrow>
          (let json_files = sort_key fst (filter (\<lambda>(name, entry). ends_with ''.json'' name) entries);
               json_files = filter (\<lambda>(name, entry).
                              name \<notin> set [''id_tracker.json'', ''hash_tracker.json'']) json_files
           in scan_files py_str dumps category_name json_files m 0))"

fun scan_categories ::
  "(json \<Rightarrow> string) \<Rightarrow> (json \<Rightarrow> string result) \<Rightarrow> (string \<times> fs_entry) list \<Rightarrow> merger \<Rightarrow> nat
     \<Rightarrow> nat \<times> merger" where
  "scan_categories py_str dumps [] m total_processed = (total_processed, m)"
| "scan_categories py_str dumps ((name, folder) # rest) m total_processed =
     (case scan_category_folder py_str dumps folder name m of
        (processed, m') \<Rightarrow> scan_categories py_str dumps rest m' (total_processed + processed))"

text \<open>
  The loop of \<^verbatim>\<open>merge_data\<close> over the community folders: a folder with subfolders is
  scanned one category per subfolder, a folder without is itself the category.
\<close>

fun scan_communities ::
  "(json \<Rightarrow> string) \<Rightarrow> (json \<Rightarrow> string result) \<Rightarrow> (string \<times> fs_entry) list \<Rightarrow> merger \<Rightarrow> nat
     \<Rightarrow> nat \<times> merger" where
  "scan_communities py_str dumps [] m total_processed = (total_processed, m)"
| "scan_communities py_str dumps ((name, community_folder) # rest) m total_processed =
     (let category_folders =
            (case community_folder of
               Dir entries \<Rightarrow> filter (\<lambda>(n, e). is_dir e) entries
             | File content \<Rightarrow> [])
      in if category_folders \<noteq> [] then
           (case scan_categories py_str dumps (sort_key fst category_folders) m total_processed of
              (total_processed', m') \<Rightarrow> scan_communities py_str dumps rest m' total_processed')
         else
           (case scan_category_folder py_str dumps community_folder name m of
              (processed, m') \<Rightarrow>
                scan_communities py_str dumps rest m' (total_processed + processed)))"

text \<open>
  \<^verbatim>\<open>merge_data\<close>: \<open>data_dir\<close> is \<open>None\<close> when the path does not exist. Listing a path that
  is a file raises, and nothing catches it.
\<close>

definition merge_data ::
  "(json \<Rightarrow> string) \<Rightarrow> (json \<Rightarrow> string result) \<Rightarrow> fs_entry option \<Rightarrow> merger
     \<Rightarrow> (nat \<times> merger) result" where
  "merge_data py_str dumps data_dir m =
     (case data_dir of
        None \<Rightarrow> Inr (0, m)
      | Some (File content) \<Rightarrow> Inl NotADirectoryError
      | Some (Dir entries) \<Rightarrow>
          (let community_folders = filter (\<lambda>(n, e). is_dir e) entries
           in Inr (scan_communities py_str dumps (sort_key fst community_folders) m 0)))"

text \<open>
  \<^verbatim>\<open>write_csv\<close>: \<open>csv_fault\<close> is the exception of writing the output file, if it raises.
  The rows written are returned with the flag.
\<close>

definition write_csv :: "exn option \<Rightarrow> merger \<Rightarrow> bool \<times> flat_record list option" where
  "write_csv csv_fault m =
     (if records m = [] then (False, None)
      else (case csv_fault of
              Some e \<Rightarrow> (False, None)
            | None \<Rightarrow> (True, Some (records m))))"

definition run ::
  "(json \<Rightarrow> string) \<Rightarrow> (json \<Rightarrow> string result) \<Rightarrow> exn option \<Rightarrow> fs_entry option
     \<Rightarrow> (bool \<times> flat_record list option) result" where
  "run py_str dumps csv_fault data_dir =
     (case merge_data py_str dumps data_dir \<lparr>records = [], merger_auto_id = 1\<rparr> of
        Inl e \<Rightarrow> Inl e
      | Inr (total_records, m) \<Rightarrow>
          if total_records = 0 then Inr (False, None)
          else Inr (write_csv csv_fault m))"

text \<open>
  \<^verbatim>\<open>exit(main())\<close> of \<^verbatim>\<open>merge.py\<close>: \<open>args\<close> is \<open>None\<close> when \<^verbatim>\<open>argparse\<close> rejects the
  command line, and the data directory the arguments name otherwise.
\<close>

definition merge_main ::
  "(json \<Rightarrow> string) \<Rightarrow> (json \<Rightarrow> string result) \<Rightarrow> exn option \<Rightarrow> fs_entry option option \<Rightarrow> int" where
  "merge_main py_str dumps csv_fault args =
     (case args of
        None \<Rightarrow> 2
      | Some data_dir \<Rightarrow>
          (case run py_str dumps csv_fault data_dir of
             Inl e \<Rightarrow> 1
           | Inr (success, rows) \<Rightarrow> if success then 0 else 1))"

section \<open>Notions used to state the properties\<close>

subsection \<open>Histories of writes against one scope\<close>



subsection \<open>Links in encounter order\<close>

text \<open>
  The links one pass over a list of containers reads, in order: a container whose read
  raises \<^verbatim>\<open>StaleElementReferenceException\<close> or \<^verbatim>\<open>NoSuchElementException\<close>, or returns
  \<^verbatim>\<open>None\<close>, contributes none, and any other exception ends the pass.
\<close>

fun links_read :: "string option result list \<Rightarrow> string list" where
  "links_read [] = []"
| "links_read (Inl e # rest) =
     (if e = StaleElementReferenceException \<or> e = NoSuchElementException
      then links_read rest else [])"
| "links_read (Inr None # rest) = links_read rest"
| "links_read (Inr (Some link) # rest) = link # links_read rest"

definition cycle_links :: "(nat \<Rightarrow> cycle) \<Rightarrow> nat \<Rightarrow> string list" where
  "cycle_links listing k =
     (case post_containers (listing k) of Inl e \<Rightarrow> [] | Inr containers \<Rightarrow> links_read containers)"

text \<open>The links the first \<open>k\<close> iterations show, in encounter order.\<close>

definition encountered :: "(nat \<Rightarrow> cycle) \<Rightarrow> nat \<Rightarrow> string list" where
  "encountered listing k = concat (map (cycle_links listing) [0..<k])"

text \<open>
  The not-yet-seen links of a sequence of links, in encounter order: a link is kept when
  it is not empty, was not kept before, and its fingerprint is not in \<open>hashes\<close>.
\<close>

definition fresh_step :: "(string \<Rightarrow> string) \<Rightarrow> string set \<Rightarrow> string list \<Rightarrow> string \<Rightarrow> string list" where
  "fresh_step generate_hash hashes acc link =
     (if link \<noteq> [] \<and> link \<notin> set acc \<and> generate_hash link \<notin> hashes then acc @ [link] else acc)"

definition fresh_links :: "(string \<Rightarrow> string) \<Rightarrow> string set \<Rightarrow> string list \<Rightarrow> string list" where
  "fresh_links generate_hash hashes links = foldl (fresh_step generate_hash hashes) [] links"

definition scroll_count :: "surface_call list \<Rightarrow> nat" where
  "scroll_count calls = length (filter (\<lambda>c. c = ScrollToBottom) calls)"

definition iteration_count :: "surface_call list \<Rightarrow> nat" where
  "iteration_count calls = length (filter (\<lambda>c. c = FindContainers) calls)"

text \<open>
  An iteration in which nothing raises: the containers are listed and no container read
  raises an exception other than the two the inner handler skips.
\<close>

definition quiet_cycle :: "cycle \<Rightarrow> bool" where
  "quiet_cycle c =
     (case post_containers c of
        Inl e \<Rightarrow> False
      | Inr containers \<Rightarrow>
          list_all (\<lambda>r. case r of
                          Inl e \<Rightarrow> e = StaleElementReferenceException \<or> e = NoSuchElementException
                        | Inr link \<Rightarrow> True) containers)"

subsection \<open>Faults of a comment element and of a post page\<close>

text \<open>
  The extraction of a comment element raises: reading its body or its vote element
  raises something other than \<^verbatim>\<open>NoSuchElementException\<close>.
\<close>

definition raises_other :: "'a result \<Rightarrow> bool" where
  "raises_other r = (case r of Inl e \<Rightarrow> e \<noteq> NoSuchElementException | Inr v \<Rightarrow> False)"

definition node_raises :: "comment_element \<Rightarrow> bool" where
  "node_raises element = (raises_other (body_read element) \<or> raises_other (vote_read element))"

text \<open>
  A fault that makes \<^verbatim>\<open>extract_post_data\<close> give up: the page does not load, the title
  or the body read raises something other than \<^verbatim>\<open>NoSuchElementException\<close>, a
  comment-loading scroll raises, or closing the tab raises.
\<close>

definition page_fault :: "page \<Rightarrow> bool" where
  "page_fault pg =
     (page_load pg \<noteq> None \<or> raises_other (title_read pg) \<or> raises_other (text_body_read pg)
      \<or> comment_scrolls pg \<noteq> None \<or> tab_close pg \<noteq> None)"

text \<open>
  The trackers on disk agree with the fetcher: loading the counter gives \<open>next_id\<close>, and
  the fingerprint tracker can be read.
\<close>

definition trackers_in_step :: "fetcher \<Rightarrow> bool" where
  "trackers_in_step self =
     (load_next_id (community_dir self) = Inr (next_id self)
      \<and> hash_tracker_file (community_dir self) \<noteq> Corrupt)"

subsection \<open>One iteration of the discovery loop\<close>

text \<open>
  The body of the \<^verbatim>\<open>while\<close> loop as a function of its own: \<open>Finished\<close> where the source
  leaves the loop, \<open>Again\<close> where it goes round. \<open>loop_guard\<close> is the loop's condition.
\<close>

datatype step_result = Finished discovery | Again discovery

definition loop_guard :: "int \<Rightarrow> discovery \<Rightarrow> bool" where
  "loop_guard count d =
     (int (length (collected_links d)) < count \<and> scroll_attempts d < max_scroll_attempts)"

definition cycle_step ::
  "(string \<Rightarrow> string) \<Rightarrow> string set \<Rightarrow> (nat \<Rightarrow> cycle) \<Rightarrow> int \<Rightarrow> discovery \<Rightarrow> step_result" where
  "cycle_step generate_hash hashes listing count d =
     (let d0 = d\<lparr>surface_calls := surface_calls d @ [FindContainers]\<rparr> in
      case post_containers (listing (scroll_attempts d)) of
        Inl e \<Rightarrow> Again (d0\<lparr>scroll_attempts := scroll_attempts d + 1\<rparr>)
      | Inr containers \<Rightarrow>
          (case scan_containers generate_hash hashes count containers d0 of
             (Some e, d1) \<Rightarrow> Again (d1\<lparr>scroll_attempts := scroll_attempts d + 1\<rparr>)
           | (None, d1) \<Rightarrow>
               if int (length (collected_links d1)) \<ge> count then Finished d1
               else
                 (let d2 = d1\<lparr>surface_calls := surface_calls d1 @ [ScrollToBottom]\<rparr> in
                  case scroll_and_wait (scroll_heights (listing (scroll_attempts d))) of
                    Inl e \<Rightarrow> Again (d2\<lparr>scroll_attempts := scroll_attempts d + 1\<rparr>)
                  | Inr has_more_content \<Rightarrow>
                      if \<not> has_more_content
                      then Finished (d2\<lparr>scroll_attempts := scroll_attempts d + 1\<rparr>)
                      else Again (d2\<lparr>scroll_attempts := scroll_attempts d + 1\<rparr>))))"

text \<open>
  Every call of a trace was made while the links shown so far held fewer than \<open>count\<close>
  fresh ones: \<open>k\<close> counts the iterations already begun, so a \<open>FindContainers\<close> is judged
  by the links of the iterations before it (the loop's condition, with the cap on the
  iterations), a \<open>ScrollToBottom\<close> by the links up to and including its own iteration.
\<close>

fun calls_justified ::
  "(string \<Rightarrow> string) \<Rightarrow> string set \<Rightarrow> (nat \<Rightarrow> cycle) \<Rightarrow> int \<Rightarrow> nat \<Rightarrow> surface_call list \<Rightarrow> bool" where
  "calls_justified gh H L N k [] = True"
| "calls_justified gh H L N k (FindContainers # cs) =
     (length (fresh_links gh H (encountered L k)) < nat N \<and> k < max_scroll_attempts
      \<and> calls_justified gh H L N (Suc k) cs)"
| "calls_justified gh H L N k (ScrollToBottom # cs) =
     (length (fresh_links gh H (encountered L k)) < nat N \<and> calls_justified gh H L N k cs)"

text \<open>
  The calls iteration \<open>k\<close> makes on the listing when the loop gets that far: the
  containers are searched, and the page is scrolled exactly when nothing raised in the
  iteration and the links shown up to and including it hold fewer than \<open>count\<close> fresh
  ones.
\<close>

definition iteration_calls ::
  "(string \<Rightarrow> string) \<Rightarrow> string set \<Rightarrow> (nat \<Rightarrow> cycle) \<Rightarrow> int \<Rightarrow> nat \<Rightarrow> surface_call list" where
  "iteration_calls gh H L N k =
     (if quiet_cycle (L k) \<and> length (fresh_links gh H (encountered L (Suc k))) < nat N
      then [FindContainers, ScrollToBottom] else [FindContainers])"

text \<open>
  \<open>disc_ok\<close> holds of the variables whenever an iteration starts, \<open>disc_done\<close> of the
  variables the loop ends with: the links collected are the not-yet-seen links of the
  iterations made, in encounter order.
\<close>

definition disc_ok ::
  "(string \<Rightarrow> string) \<Rightarrow> string set \<Rightarrow> (nat \<Rightarrow> cycle) \<Rightarrow> int \<Rightarrow> discovery \<Rightarrow> bool" where
  "disc_ok gh H L N d =
     (seen_links d = set (map link_url (collected_links d))
      \<and> map link_url (collected_links d) = fresh_links gh H (encountered L (scroll_attempts d))
      \<and> (\<forall>l \<in> set (collected_links d). votes_preview l = None)
      \<and> scroll_count (surface_calls d) \<le> scroll_attempts d
      \<and> iteration_count (surface_calls d) = scroll_attempts d
      \<and> scroll_attempts d \<le> max_scroll_attempts
      \<and> (\<forall>j < scroll_attempts d. length (fresh_links gh H (encountered L (Suc j))) < nat N)
      \<and> (int (length (collected_links d)) < N \<or> collected_links d = [])
      \<and> calls_justified gh H L N 0 (surface_calls d)
      \<and> surface_calls d = concat (map (iteration_calls gh H L N) [0..<scroll_attempts d]))"

definition disc_done ::
  "(string \<Rightarrow> string) \<Rightarrow> string set \<Rightarrow> (nat \<Rightarrow> cycle) \<Rightarrow> int \<Rightarrow> discovery \<Rightarrow> bool" where
  "disc_done gh H L N d =
     (map link_url (collected_links d)
        = take (nat N) (fresh_links gh H (encountered L (iteration_count (surface_calls d))))
      \<and> (0 < N \<longrightarrow> 0 < iteration_count (surface_calls d))
      \<and> (\<forall>l \<in> set (collected_links d). votes_preview l = None)
      \<and> scroll_count (surface_calls d) \<le> max_scroll_attempts
      \<and> iteration_count (surface_calls d) \<le> max_scroll_attempts
      \<and> (\<forall>j < scroll_count (surface_calls d).
            length (fresh_links gh H (encountered L (Suc j))) < nat N)
      \<and> (\<forall>j. Suc j < iteration_count (surface_calls d)
            \<longrightarrow> length (fresh_links gh H (encountered L (Suc j))) < nat N)
      \<and> (int (length (collected_links d)) \<le> N \<or> collected_links d = [])
      \<and> calls_justified gh H L N 0 (surface_calls d)
      \<and> surface_calls d
           = concat (map (iteration_calls gh H L N) [0..<iteration_count (surface_calls d)])
      \<and> (int (length (collected_links d)) < N \<longrightarrow>
            iteration_count (surface_calls d) = max_scroll_attempts
            \<or> (\<exists>k h. iteration_count (surface_calls d) = Suc k \<and> quiet_cycle (L k)
                      \<and> scroll_heights (L k) = Inr (h, h))))"

section \<open>Properties of the item store writer\<close>

text \<open>
  The three ways a \<^verbatim>\<open>save_post\<close> call can go: the title is \<^verbatim>\<open>None\<close> and nothing is
  touched; the item write fails and only the item file may differ; the item write
  succeeds, the fingerprint is added and the counter advanced in memory, and the two
  tracker writes follow.
\<close>

lemma save_post_cases:
  "save_post io post self = (r, self') \<Longrightarrow>
     (r = Inl TypeError \<and> title post = None \<and> self' = self)
   \<or> (title post \<noteq> None \<and> item_write io \<noteq> WriteOk \<and> r = Inl OSError
        \<and> next_id self' = next_id self \<and> collected_hashes self' = collected_hashes self
        \<and> id_tracker_file (community_dir self') = id_tracker_file (community_dir self)
        \<and> hash_tracker_file (community_dir self') = hash_tracker_file (community_dir self))
   \<or> (title post \<noteq> None \<and> item_write io = WriteOk
        \<and> item_files (community_dir self') (next_id self) = Holds (post\<lparr>item_id := Some (next_id self)\<rparr>)
        \<and> next_id self' = next_id self + 1
        \<and> collected_hashes self' = insert (hash post) (collected_hashes self)
        \<and> (id_write io = WriteOk \<longrightarrow> id_tracker_file (community_dir self') = Holds (Some (next_id self + 1)))
        \<and> (id_write io = WriteOk \<longrightarrow> hash_write io = WriteOk \<longrightarrow>
              hash_tracker_file (community_dir self') = Holds (Some (insert (hash post) (collected_hashes self)))
              \<and> r = Inr (next_id self))
        \<and> (r \<noteq> Inr (next_id self) \<longrightarrow> r = Inl OSError \<and> (id_write io \<noteq> WriteOk \<or> hash_write io \<noteq> WriteOk)))"
  by (cases "item_write io"; cases "id_write io"; cases "hash_write io"; cases "title post")
     (auto simp: save_post_def Let_def write_file_def save_next_id_def save_collected_hashes_def)

text \<open>
  C1 (write, then commit). If writing the item file raises, the call raises and the
  counter, the fingerprint set and both tracker files are as before, so the same id is
  assigned again. Conversely, whenever the counter, the fingerprint set or a tracker file
  differs after the call, the item file of the assigned id had been written in full
  before.
\<close>

theorem save_post_write_then_commit:
  "(item_write io \<noteq> WriteOk \<longrightarrow>
      isl (fst (save_post io post self))
      \<and> next_id (snd (save_post io post self)) = next_id self
      \<and> collected_hashes (snd (save_post io post self)) = collected_hashes self
      \<and> id_tracker_file (community_dir (snd (save_post io post self))) = id_tracker_file (community_dir self)
      \<and> hash_tracker_file (community_dir (snd (save_post io post self))) = hash_tracker_file (community_dir self))
   \<and> (next_id (snd (save_post io post self)) \<noteq> next_id self
        \<or> collected_hashes (snd (save_post io post self)) \<noteq> collected_hashes self
        \<or> id_tracker_file (community_dir (snd (save_post io post self))) \<noteq> id_tracker_file (community_dir self)
        \<or> hash_tracker_file (community_dir (snd (save_post io post self))) \<noteq> hash_tracker_file (community_dir self)
       \<longrightarrow> item_write io = WriteOk
           \<and> item_files (community_dir (snd (save_post io post self))) (next_id self)
               = Holds (post\<lparr>item_id := Some (next_id self)\<rparr>))"
  using save_post_cases [of io post self "fst (save_post io post self)" "snd (save_post io post self)"]
  by auto

theorem save_post_write_then_commit_witness:
  "(let io = \<lparr>item_write = DumpFails, id_write = WriteOk, hash_write = WriteOk\<rparr>;
        ok = \<lparr>item_write = WriteOk, id_write = WriteOk, hash_write = WriteOk\<rparr>;
        post = \<lparr>url = ''u'', hash = ''h'', scraped_at = ''t'', title = Some ''T'',
                description = None, votes = None, comments = [], item_id = None\<rparr>;
        self = \<lparr>next_id = 7, collected_hashes = {''a''},
                community_dir = \<lparr>item_files = (\<lambda>i. Absent), id_tracker_file = Holds (Some 7),
                                 hash_tracker_file = Holds (Some {''a''})\<rparr>\<rparr>
    in item_write io \<noteq> WriteOk
       \<and> fst (save_post io post self) = Inl OSError
       \<and> next_id (snd (save_post io post self)) = 7
       \<and> collected_hashes (snd (save_post io post self)) = {''a''}
       \<and> id_tracker_file (community_dir (snd (save_post io post self))) = Holds (Some 7)
       \<and> hash_tracker_file (community_dir (snd (save_post io post self))) = Holds (Some {''a''})
       \<and> next_id (snd (save_post ok post self)) \<noteq> next_id self
       \<and> item_write ok = WriteOk
       \<and> item_files (community_dir (snd (save_post ok post self))) 7
            = Holds (post\<lparr>item_id := Some 7\<rparr>))"
  using save_post_write_then_commit
          [of "\<lparr>item_write = DumpFails, id_write = WriteOk, hash_write = WriteOk\<rparr>"
              "\<lparr>url = ''u'', hash = ''h'', scraped_at = ''t'', title = Some ''T'',
                description = None, votes = None, comments = [], item_id = None\<rparr>"
              "\<lparr>next_id = 7, collected_hashes = {''a''},
                community_dir = \<lparr>item_files = (\<lambda>i. Absent), id_tracker_file = Holds (Some 7),
                                 hash_tracker_file = Holds (Some {''a''})\<rparr>\<rparr>"]
        save_post_write_then_commit
          [of "\<lparr>item_write = WriteOk, id_write = WriteOk, hash_write = WriteOk\<rparr>"
              "\<lparr>url = ''u'', hash = ''h'', scraped_at = ''t'', title = Some ''T'',
                description = None, votes = None, comments = [], item_id = None\<rparr>"
              "\<lparr>next_id = 7, collected_hashes = {''a''},
                community_dir = \<lparr>item_files = (\<lambda>i. Absent), id_tracker_file = Holds (Some 7),
                                 hash_tracker_file = Holds (Some {''a''})\<rparr>\<rparr>"]
  by (simp add: Let_def save_post_def write_file_def save_next_id_def save_collected_hashes_def)

subsection \<open>Identifiers across runs\<close>






lemma setup_in_step:
  "setup_community_dir dir = Inr self \<Longrightarrow> trackers_in_step self \<and> community_dir self = dir"
  by (auto simp: setup_community_dir_def trackers_in_step_def load_collected_hashes_def
           split: sum.splits disk_file.splits)








section \<open>Properties of the discovery loop\<close>

subsection \<open>One pass over the containers\<close>

lemma fresh_step_extends:
  "\<exists>ys. fresh_step gh H acc l = acc @ ys"
  by (simp add: fresh_step_def)

lemma fresh_foldl_extends:
  "\<exists>ys. foldl (fresh_step gh H) acc ls = acc @ ys"
proof (induction ls arbitrary: acc)
  case Nil
  then show ?case by simp
next
  case (Cons l ls)
  from fresh_step_extends [of gh H acc l] obtain xs where
    xs: "fresh_step gh H acc l = acc @ xs" by blast
  from Cons [of "acc @ xs"] obtain ys where
    "foldl (fresh_step gh H) (acc @ xs) ls = (acc @ xs) @ ys" by blast
  with xs show ?case by simp
qed

lemma fresh_foldl_take:
  "length acc = n \<Longrightarrow> take n (foldl (fresh_step gh H) acc ls) = acc"
  using fresh_foldl_extends [of gh H acc ls] by auto

lemma fresh_foldl_length:
  "length acc \<le> length (foldl (fresh_step gh H) acc ls)"
  using fresh_foldl_extends [of gh H acc ls] by auto

lemma scan_containers_spec:
  assumes "seen_links d = set (map link_url (collected_links d))"
    and "int (length (collected_links d)) < N"
  shows "case scan_containers gh H N cs d of (r, d') \<Rightarrow>
           map link_url (collected_links d')
             = take (nat N) (foldl (fresh_step gh H) (map link_url (collected_links d)) (links_read cs))
           \<and> seen_links d' = set (map link_url (collected_links d'))
           \<and> scroll_attempts d' = scroll_attempts d \<and> surface_calls d' = surface_calls d
           \<and> (r \<noteq> None \<longrightarrow>
                length (foldl (fresh_step gh H) (map link_url (collected_links d)) (links_read cs)) < nat N)
           \<and> (r = None \<and> int (length (collected_links d')) < N \<longrightarrow>
                map link_url (collected_links d')
                  = foldl (fresh_step gh H) (map link_url (collected_links d)) (links_read cs))
           \<and> ((\<forall>l \<in> set (collected_links d). votes_preview l = None)
                \<longrightarrow> (\<forall>l \<in> set (collected_links d'). votes_preview l = None))
           \<and> int (length (collected_links d')) \<le> N"
  using assms
proof (induction cs arbitrary: d)
  case Nil
  then show ?case by simp
next
  case (Cons c cs)
  let ?acc = "map link_url (collected_links d)"
  show ?case
  proof (cases c)
    case (Inl e)
    show ?thesis
    proof (cases "e = StaleElementReferenceException \<or> e = NoSuchElementException")
      case True
      with Inl Cons.IH [OF Cons.prems] show ?thesis by simp
    next
      case False
      with Inl Cons.prems show ?thesis by simp
    qed
  next
    case (Inr lo)
    show ?thesis
    proof (cases lo)
      case None
      with Inr Cons.IH [OF Cons.prems] show ?thesis by simp
    next
      case (Some link)
      show ?thesis
      proof (cases "link \<noteq> [] \<and> link \<notin> seen_links d \<and> gh link \<notin> H")
        case False
        then have skip: "scan_containers gh H N (c # cs) d = scan_containers gh H N cs d"
          using Inr Some by (auto simp: Let_def)
        from False Cons.prems(1) have "fresh_step gh H ?acc link = ?acc"
          by (auto simp: fresh_step_def)
        with skip Inr Some Cons.IH [OF Cons.prems] show ?thesis by simp
      next
        case True
        let ?d' = "d\<lparr>collected_links := collected_links d @ [\<lparr>link_url = link, votes_preview = None\<rparr>],
                     seen_links := insert link (seen_links d)\<rparr>"
        from True Cons.prems(1) have fs: "fresh_step gh H ?acc link = ?acc @ [link]"
          by (auto simp: fresh_step_def)
        have seen': "seen_links ?d' = set (map link_url (collected_links ?d'))"
          using Cons.prems(1) by auto
        have acc': "map link_url (collected_links ?d') = ?acc @ [link]" by simp
        show ?thesis
        proof (cases "int (length (collected_links ?d')) \<ge> N")
          case brk: True
          then have res: "scan_containers gh H N (c # cs) d = (None, ?d')"
            using Inr Some True by (simp add: Let_def)
          from brk Cons.prems(2) have len: "length (?acc @ [link]) = nat N" by simp
          have "take (nat N) (foldl (fresh_step gh H) (?acc @ [link]) (links_read cs)) = ?acc @ [link]"
            by (rule fresh_foldl_take [OF len])
          with res Inr Some fs len brk Cons.prems show ?thesis by auto
        next
          case cont: False
          then have res: "scan_containers gh H N (c # cs) d = scan_containers gh H N cs ?d'"
            using Inr Some True by (simp add: Let_def)
          from cont have lt: "int (length (collected_links ?d')) < N" by simp
          note ih = Cons.IH [OF seen' lt]
          show ?thesis unfolding res using ih Inr Some fs acc'
            by (auto split: prod.splits)
        qed
      qed
    qed
  qed
qed

subsection \<open>The loop\<close>

lemma discovery_loop_unfold:
  "discovery_loop gh H L N d =
     (if loop_guard N d then
        (case cycle_step gh H L N d of
           Finished d' \<Rightarrow> d'
         | Again d' \<Rightarrow> discovery_loop gh H L N d')
      else d)"
  by (subst discovery_loop.simps)
     (simp add: cycle_step_def loop_guard_def Let_def split: sum.splits prod.splits option.splits)

lemma scan_quiet:
  "list_all (\<lambda>r. case r of
                    Inl e \<Rightarrow> e = StaleElementReferenceException \<or> e = NoSuchElementException
                  | Inr link \<Rightarrow> True) cs
   \<Longrightarrow> fst (scan_containers gh H N cs d) = None"
proof (induction cs arbitrary: d)
  case Nil
  then show ?case by simp
next
  case (Cons c cs)
  then show ?case by (cases c) (auto simp: Let_def split: option.splits)
qed

lemma cycle_step_attempts:
  "cycle_step gh H L N d = Again d' \<Longrightarrow> scroll_attempts d' = scroll_attempts d + 1"
  by (auto simp: cycle_step_def Let_def split: sum.splits prod.splits option.splits if_splits)

lemma discovery_loop_induct:
  assumes "I d"
    and again: "\<And>d d'. I d \<Longrightarrow> loop_guard N d \<Longrightarrow> cycle_step gh H L N d = Again d' \<Longrightarrow> I d'"
    and finished: "\<And>d d'. I d \<Longrightarrow> loop_guard N d \<Longrightarrow> cycle_step gh H L N d = Finished d' \<Longrightarrow> Q d'"
    and exit: "\<And>d. I d \<Longrightarrow> \<not> loop_guard N d \<Longrightarrow> Q d"
  shows "Q (discovery_loop gh H L N d)"
  using assms(1)
proof (induction "max_scroll_attempts - scroll_attempts d" arbitrary: d rule: less_induct)
  case less
  show ?case
  proof (cases "loop_guard N d")
    case False
    with exit [OF less.prems] show ?thesis by (subst discovery_loop_unfold) simp
  next
    case True
    show ?thesis
    proof (cases "cycle_step gh H L N d")
      case (Finished d')
      with finished [OF less.prems True] True show ?thesis
        by (subst discovery_loop_unfold) simp
    next
      case (Again d')
      from cycle_step_attempts [OF Again] True
      have "max_scroll_attempts - scroll_attempts d' < max_scroll_attempts - scroll_attempts d"
        unfolding loop_guard_def by linarith
      from less.hyps [OF this again [OF less.prems True Again]] Again True show ?thesis
        by (subst discovery_loop_unfold) simp
    qed
  qed
qed

lemma cycle_step_again:
  assumes seen: "seen_links d = set (map link_url (collected_links d))"
    and guard: "loop_guard N d"
    and step: "cycle_step gh H L N d = Again d'"
  shows "map link_url (collected_links d')
           = foldl (fresh_step gh H) (map link_url (collected_links d)) (cycle_links L (scroll_attempts d))
         \<and> int (length (collected_links d')) < N
         \<and> seen_links d' = set (map link_url (collected_links d'))
         \<and> scroll_attempts d' = scroll_attempts d + 1
         \<and> (surface_calls d' = surface_calls d @ [FindContainers]
            \<or> surface_calls d' = surface_calls d @ [FindContainers, ScrollToBottom])
         \<and> ((\<forall>l \<in> set (collected_links d). votes_preview l = None)
              \<longrightarrow> (\<forall>l \<in> set (collected_links d'). votes_preview l = None))"
proof (cases "post_containers (L (scroll_attempts d))")
  case (Inl e)
  with step have d': "d' = d\<lparr>surface_calls := surface_calls d @ [FindContainers],
                              scroll_attempts := scroll_attempts d + 1\<rparr>"
    by (simp add: cycle_step_def Let_def)
  from Inl have cl: "cycle_links L (scroll_attempts d) = []" by (simp add: cycle_links_def)
  from guard have lt: "int (length (collected_links d)) < N" by (simp add: loop_guard_def)
  show ?thesis unfolding d' cl using seen lt by simp
next
  case (Inr cs)
  let ?d0 = "d\<lparr>surface_calls := surface_calls d @ [FindContainers]\<rparr>"
  let ?F = "foldl (fresh_step gh H) (map link_url (collected_links d)) (links_read cs)"
  obtain r d1 where sc: "scan_containers gh H N cs ?d0 = (r, d1)"
    by (cases "scan_containers gh H N cs ?d0")
  have s0: "seen_links ?d0 = set (map link_url (collected_links ?d0))" using seen by simp
  have l0: "int (length (collected_links ?d0)) < N" using guard by (simp add: loop_guard_def)
  have collected_eq: "collected_links ?d0 = collected_links d" "scroll_attempts ?d0 = scroll_attempts d"
    "surface_calls ?d0 = surface_calls d @ [FindContainers]" by simp_all
  note spec = scan_containers_spec [OF s0 l0, of gh H cs, unfolded sc prod.case collected_eq]
  from spec have u: "map link_url (collected_links d1) = take (nat N) ?F"
    and s1: "seen_links d1 = set (map link_url (collected_links d1))"
    and a1: "scroll_attempts d1 = scroll_attempts d"
    and c1: "surface_calls d1 = surface_calls d @ [FindContainers]"
    and f1: "r \<noteq> None \<longrightarrow> length ?F < nat N"
    and e1: "r = None \<and> int (length (collected_links d1)) < N
               \<longrightarrow> map link_url (collected_links d1) = ?F"
    and v1: "(\<forall>l \<in> set (collected_links d). votes_preview l = None)
              \<longrightarrow> (\<forall>l \<in> set (collected_links d1). votes_preview l = None)"
    by blast+
  have cl: "cycle_links L (scroll_attempts d) = links_read cs" using Inr by (simp add: cycle_links_def)
  show ?thesis
  proof (cases r)
    case (Some e)
    with step Inr sc have d': "d' = d1\<lparr>scroll_attempts := scroll_attempts d + 1\<rparr>"
      by (simp add: cycle_step_def Let_def)
    from f1 Some have F: "length ?F < nat N" by simp
    with u have uF: "map link_url (collected_links d1) = ?F" by simp
    from arg_cong [OF uF, of length] F have lt: "int (length (collected_links d1)) < N" by simp
    show ?thesis unfolding d' cl using uF lt s1 c1 v1 by simp
  next
    case None
    with step Inr sc have lt: "int (length (collected_links d1)) < N"
      by (auto simp: cycle_step_def Let_def split: if_splits)
    with step Inr sc None
    have d': "d' = d1\<lparr>surface_calls := surface_calls d1 @ [ScrollToBottom],
                       scroll_attempts := scroll_attempts d + 1\<rparr>"
      by (auto simp: cycle_step_def Let_def split: if_splits sum.splits)
    from e1 None lt have uF: "map link_url (collected_links d1) = ?F" by blast
    show ?thesis unfolding d' cl using uF lt s1 c1 v1 by simp
  qed
qed

lemma cycle_step_finished:
  assumes seen: "seen_links d = set (map link_url (collected_links d))"
    and guard: "loop_guard N d"
    and step: "cycle_step gh H L N d = Finished d'"
  shows "map link_url (collected_links d')
           = take (nat N) (foldl (fresh_step gh H) (map link_url (collected_links d))
                             (cycle_links L (scroll_attempts d)))
         \<and> int (length (collected_links d')) \<le> N
         \<and> ((\<forall>l \<in> set (collected_links d). votes_preview l = None)
              \<longrightarrow> (\<forall>l \<in> set (collected_links d'). votes_preview l = None))
         \<and> (surface_calls d' = surface_calls d @ [FindContainers]
              \<and> scroll_attempts d' = scroll_attempts d
            \<or> surface_calls d' = surface_calls d @ [FindContainers, ScrollToBottom]
              \<and> scroll_attempts d' = scroll_attempts d + 1
              \<and> length (foldl (fresh_step gh H) (map link_url (collected_links d))
                           (cycle_links L (scroll_attempts d))) < nat N)"
proof (cases "post_containers (L (scroll_attempts d))")
  case (Inl e)
  with step show ?thesis by (simp add: cycle_step_def Let_def)
next
  case (Inr cs)
  let ?d0 = "d\<lparr>surface_calls := surface_calls d @ [FindContainers]\<rparr>"
  let ?F = "foldl (fresh_step gh H) (map link_url (collected_links d)) (links_read cs)"
  obtain r d1 where sc: "scan_containers gh H N cs ?d0 = (r, d1)"
    by (cases "scan_containers gh H N cs ?d0")
  have s0: "seen_links ?d0 = set (map link_url (collected_links ?d0))" using seen by simp
  have l0: "int (length (collected_links ?d0)) < N" using guard by (simp add: loop_guard_def)
  have collected_eq: "collected_links ?d0 = collected_links d" "scroll_attempts ?d0 = scroll_attempts d"
    "surface_calls ?d0 = surface_calls d @ [FindContainers]" by simp_all
  note spec = scan_containers_spec [OF s0 l0, of gh H cs, unfolded sc prod.case collected_eq]
  from spec have u: "map link_url (collected_links d1) = take (nat N) ?F"
    and a1: "scroll_attempts d1 = scroll_attempts d"
    and c1: "surface_calls d1 = surface_calls d @ [FindContainers]"
    and e1: "r = None \<and> int (length (collected_links d1)) < N
               \<longrightarrow> map link_url (collected_links d1) = ?F"
    and v1: "(\<forall>l \<in> set (collected_links d). votes_preview l = None)
              \<longrightarrow> (\<forall>l \<in> set (collected_links d1). votes_preview l = None)"
    and le1: "int (length (collected_links d1)) \<le> N"
    by blast+
  have cl: "cycle_links L (scroll_attempts d) = links_read cs" using Inr by (simp add: cycle_links_def)
  from step Inr sc have r: "r = None" by (cases r) (simp_all add: cycle_step_def Let_def)
  show ?thesis
  proof (cases "int (length (collected_links d1)) \<ge> N")
    case True
    with step Inr sc r have d': "d' = d1" by (simp add: cycle_step_def Let_def)
    show ?thesis unfolding d' cl using u a1 c1 v1 le1 by simp
  next
    case False
    with step Inr sc r
    have d': "d' = d1\<lparr>surface_calls := surface_calls d1 @ [ScrollToBottom],
                       scroll_attempts := scroll_attempts d + 1\<rparr>"
      by (auto simp: cycle_step_def Let_def split: if_splits sum.splits)
    from False have lt: "int (length (collected_links d1)) < N" by simp
    from e1 r lt have uF: "map link_url (collected_links d1) = ?F" by blast
    from arg_cong [OF uF, of length] lt have len: "length ?F < nat N" by simp
    show ?thesis unfolding d' cl using u c1 v1 le1 len by simp
  qed
qed

lemma scan_none_quiet:
  "fst (scan_containers gh H N cs d) = None
   \<Longrightarrow> int (length (collected_links (snd (scan_containers gh H N cs d)))) < N
   \<Longrightarrow> list_all (\<lambda>r. case r of
                    Inl e \<Rightarrow> e = StaleElementReferenceException \<or> e = NoSuchElementException
                  | Inr link \<Rightarrow> True) cs"
proof (induction cs arbitrary: d)
  case Nil
  then show ?case by simp
next
  case (Cons c cs)
  show ?case
  proof (cases c)
    case (Inl e)
    with Cons show ?thesis by (auto split: if_splits)
  next
    case (Inr lo)
    show ?thesis
    proof (cases lo)
      case None
      with Inr Cons show ?thesis by simp
    next
      case (Some link)
      with Inr Cons show ?thesis by (auto simp: Let_def split: if_splits)
    qed
  qed
qed

lemma cycle_step_calls:
  assumes seen: "seen_links d = set (map link_url (collected_links d))"
    and guard: "loop_guard N d"
    and step: "cycle_step gh H L N d = Again d' \<or> cycle_step gh H L N d = Finished d'"
  shows "surface_calls d'
           = surface_calls d
             @ (if quiet_cycle (L (scroll_attempts d))
                   \<and> length (foldl (fresh_step gh H) (map link_url (collected_links d))
                                (cycle_links L (scroll_attempts d))) < nat N
                then [FindContainers, ScrollToBottom] else [FindContainers])"
proof (cases "post_containers (L (scroll_attempts d))")
  case (Inl e)
  then have nq: "\<not> quiet_cycle (L (scroll_attempts d))" by (simp add: quiet_cycle_def)
  from step Inl have "surface_calls d' = surface_calls d @ [FindContainers]"
    by (auto simp: cycle_step_def Let_def)
  with nq show ?thesis by simp
next
  case (Inr cs)
  let ?d0 = "d\<lparr>surface_calls := surface_calls d @ [FindContainers]\<rparr>"
  let ?F = "foldl (fresh_step gh H) (map link_url (collected_links d)) (links_read cs)"
  obtain r d1 where sc: "scan_containers gh H N cs ?d0 = (r, d1)"
    by (cases "scan_containers gh H N cs ?d0")
  have s0: "seen_links ?d0 = set (map link_url (collected_links ?d0))" using seen by simp
  have l0: "int (length (collected_links ?d0)) < N" using guard by (simp add: loop_guard_def)
  have collected_eq: "collected_links ?d0 = collected_links d" "scroll_attempts ?d0 = scroll_attempts d"
    "surface_calls ?d0 = surface_calls d @ [FindContainers]" by simp_all
  note spec = scan_containers_spec [OF s0 l0, of gh H cs, unfolded sc prod.case collected_eq]
  from spec have u: "map link_url (collected_links d1) = take (nat N) ?F"
    and c1: "surface_calls d1 = surface_calls d @ [FindContainers]"
    and e1: "r = None \<and> int (length (collected_links d1)) < N
               \<longrightarrow> map link_url (collected_links d1) = ?F"
    by blast+
  have cl: "cycle_links L (scroll_attempts d) = links_read cs" using Inr by (simp add: cycle_links_def)
  have q: "quiet_cycle (L (scroll_attempts d))
             = list_all (\<lambda>r. case r of
                    Inl e \<Rightarrow> e = StaleElementReferenceException \<or> e = NoSuchElementException
                  | Inr link \<Rightarrow> True) cs"
    using Inr by (simp add: quiet_cycle_def)
  show ?thesis
  proof (cases r)
    case (Some e)
    have nq: "\<not> quiet_cycle (L (scroll_attempts d))"
    proof
      assume "quiet_cycle (L (scroll_attempts d))"
      with q scan_quiet [of cs gh H N ?d0] sc Some show False by simp
    qed
    from step Inr sc Some have "surface_calls d' = surface_calls d1"
      by (auto simp: cycle_step_def Let_def)
    with c1 nq show ?thesis by simp
  next
    case None
    show ?thesis
    proof (cases "int (length (collected_links d1)) \<ge> N")
      case True
      with step Inr sc None have "surface_calls d' = surface_calls d1"
        by (auto simp: cycle_step_def Let_def)
      with c1 have c: "surface_calls d' = surface_calls d @ [FindContainers]" by simp
      from arg_cong [OF u, of length] True have "nat N \<le> length ?F" by simp
      with c show ?thesis unfolding cl by simp
    next
      case False
      then have lt: "int (length (collected_links d1)) < N" by simp
      from step Inr sc None False have "surface_calls d' = surface_calls d1 @ [ScrollToBottom]"
        by (auto simp: cycle_step_def Let_def split: sum.splits if_splits)
      with c1 have c: "surface_calls d' = surface_calls d @ [FindContainers, ScrollToBottom]" by simp
      from e1 None lt have uF: "map link_url (collected_links d1) = ?F" by blast
      from arg_cong [OF uF, of length] lt have len: "length ?F < nat N" by simp
      from scan_none_quiet [of gh H N cs ?d0] sc None lt q
      have "quiet_cycle (L (scroll_attempts d))" by simp
      with c len show ?thesis unfolding cl by simp
    qed
  qed
qed

lemma cycle_step_finished_reason:
  assumes seen: "seen_links d = set (map link_url (collected_links d))"
    and guard: "loop_guard N d"
    and step: "cycle_step gh H L N d = Finished d'"
  shows "N \<le> int (length (collected_links d'))
         \<or> quiet_cycle (L (scroll_attempts d))
           \<and> (\<exists>h. scroll_heights (L (scroll_attempts d)) = Inr (h, h))"
proof (cases "post_containers (L (scroll_attempts d))")
  case (Inl e)
  with step show ?thesis by (simp add: cycle_step_def Let_def)
next
  case (Inr cs)
  let ?d0 = "d\<lparr>surface_calls := surface_calls d @ [FindContainers]\<rparr>"
  obtain r d1 where sc: "scan_containers gh H N cs ?d0 = (r, d1)"
    by (cases "scan_containers gh H N cs ?d0")
  from step Inr sc have r: "r = None" by (cases r) (simp_all add: cycle_step_def Let_def)
  have q: "quiet_cycle (L (scroll_attempts d))
             = list_all (\<lambda>r. case r of
                    Inl e \<Rightarrow> e = StaleElementReferenceException \<or> e = NoSuchElementException
                  | Inr link \<Rightarrow> True) cs"
    using Inr by (simp add: quiet_cycle_def)
  show ?thesis
  proof (cases "int (length (collected_links d1)) \<ge> N")
    case True
    with step Inr sc r have "d' = d1" by (simp add: cycle_step_def Let_def)
    with True show ?thesis by simp
  next
    case False
    then have lt: "int (length (collected_links d1)) < N" by simp
    from scan_none_quiet [of gh H N cs ?d0] sc r lt q
    have quiet: "quiet_cycle (L (scroll_attempts d))" by simp
    from step Inr sc r False
    have "scroll_and_wait (scroll_heights (L (scroll_attempts d))) = Inr False"
      by (auto simp: cycle_step_def Let_def split: sum.splits if_splits)
    then have "\<exists>h. scroll_heights (L (scroll_attempts d)) = Inr (h, h)"
      by (auto simp: scroll_and_wait_def split: sum.splits prod.splits)
    with quiet show ?thesis by simp
  qed
qed

lemma fresh_links_Suc:
  "fresh_links gh H (encountered L (Suc a))
     = foldl (fresh_step gh H) (fresh_links gh H (encountered L a)) (cycle_links L a)"
  by (simp add: fresh_links_def encountered_def)

lemma call_counts [simp]:
  "scroll_count (cs @ [FindContainers]) = scroll_count cs"
  "scroll_count (cs @ [FindContainers, ScrollToBottom]) = Suc (scroll_count cs)"
  "iteration_count (cs @ [FindContainers]) = Suc (iteration_count cs)"
  "iteration_count (cs @ [FindContainers, ScrollToBottom]) = Suc (iteration_count cs)"
  by (simp_all add: scroll_count_def iteration_count_def)

lemma calls_justified_append:
  "calls_justified gh H L N k (xs @ ys)
     = (calls_justified gh H L N k xs \<and> calls_justified gh H L N (k + iteration_count xs) ys)"
proof (induction xs arbitrary: k)
  case Nil
  show ?case by (simp add: iteration_count_def)
next
  case (Cons c xs)
  show ?case by (cases c) (simp_all add: Cons.IH iteration_count_def)
qed

lemma calls_justified_at:
  assumes "calls_justified gh H L N 0 (pre @ c # post)"
  shows "length (fresh_links gh H (encountered L (iteration_count pre))) < nat N"
  using assms unfolding calls_justified_append by (cases c) simp_all

lemma disc_ok_again:
  assumes ok: "disc_ok gh H L N d" and guard: "loop_guard N d"
    and step: "cycle_step gh H L N d = Again d'"
  shows "disc_ok gh H L N d'"
proof -
  from ok have seen: "seen_links d = set (map link_url (collected_links d))"
    and urls: "map link_url (collected_links d) = fresh_links gh H (encountered L (scroll_attempts d))"
    and votes: "\<forall>l \<in> set (collected_links d). votes_preview l = None"
    and sc: "scroll_count (surface_calls d) \<le> scroll_attempts d"
    and it: "iteration_count (surface_calls d) = scroll_attempts d"
    and below: "\<forall>j < scroll_attempts d. length (fresh_links gh H (encountered L (Suc j))) < nat N"
    and just: "calls_justified gh H L N 0 (surface_calls d)"
    and trace: "surface_calls d = concat (map (iteration_calls gh H L N) [0..<scroll_attempts d])"
    unfolding disc_ok_def by blast+
  from cycle_step_calls [OF seen guard disjI1 [OF step]]
  have "surface_calls d' = surface_calls d @ iteration_calls gh H L N (scroll_attempts d)"
    unfolding iteration_calls_def fresh_links_Suc urls .
  with trace have trace1: "surface_calls d'
      = concat (map (iteration_calls gh H L N) [0..<Suc (scroll_attempts d)])" by simp
  from guard have cap: "scroll_attempts d < max_scroll_attempts" by (simp add: loop_guard_def)
  from guard have "length (map link_url (collected_links d)) < nat N"
    by (simp add: loop_guard_def zless_nat_eq_int_zless)
  then have old: "length (fresh_links gh H (encountered L (scroll_attempts d))) < nat N"
    unfolding urls .
  note a = cycle_step_again [OF seen guard step]
  from a have u': "map link_url (collected_links d') = fresh_links gh H (encountered L (Suc (scroll_attempts d)))"
    unfolding fresh_links_Suc urls by simp
  from a have lt: "int (length (collected_links d')) < N"
    and seen': "seen_links d' = set (map link_url (collected_links d'))"
    and calls: "surface_calls d' = surface_calls d @ [FindContainers]
            \<or> surface_calls d' = surface_calls d @ [FindContainers, ScrollToBottom]"
    by blast+
  from a have "scroll_attempts d' = scroll_attempts d + 1" by blast
  then have att: "scroll_attempts d' = Suc (scroll_attempts d)" by simp
  from a votes have votes': "\<forall>l \<in> set (collected_links d'). votes_preview l = None"
    by blast
  from arg_cong [OF u', of length] lt
  have new: "length (fresh_links gh H (encountered L (Suc (scroll_attempts d)))) < nat N" by simp
  have below': "\<forall>j < scroll_attempts d'. length (fresh_links gh H (encountered L (Suc j))) < nat N"
    unfolding att using below new by (auto simp: less_Suc_eq)
  from calls sc have sc': "scroll_count (surface_calls d') \<le> scroll_attempts d'"
    unfolding att by auto
  from calls it have it': "iteration_count (surface_calls d') = scroll_attempts d'"
    unfolding att by auto
  from cap have cap': "scroll_attempts d' \<le> max_scroll_attempts" unfolding att by simp
  from calls just it old cap new have just': "calls_justified gh H L N 0 (surface_calls d')"
    by (auto simp: calls_justified_append)
  note trace' = trace1 [folded att]
  from seen' u' [folded att] votes' sc' it' cap' below' lt just' trace' show ?thesis
    unfolding disc_ok_def by blast
qed

lemma disc_ok_finished:
  assumes ok: "disc_ok gh H L N d" and guard: "loop_guard N d"
    and step: "cycle_step gh H L N d = Finished d'"
  shows "disc_done gh H L N d'"
proof -
  from ok have seen: "seen_links d = set (map link_url (collected_links d))"
    and urls: "map link_url (collected_links d) = fresh_links gh H (encountered L (scroll_attempts d))"
    and votes: "\<forall>l \<in> set (collected_links d). votes_preview l = None"
    and sc: "scroll_count (surface_calls d) \<le> scroll_attempts d"
    and it: "iteration_count (surface_calls d) = scroll_attempts d"
    and below: "\<forall>j < scroll_attempts d. length (fresh_links gh H (encountered L (Suc j))) < nat N"
    and just: "calls_justified gh H L N 0 (surface_calls d)"
    and trace: "surface_calls d = concat (map (iteration_calls gh H L N) [0..<scroll_attempts d])"
    unfolding disc_ok_def by blast+
  from cycle_step_calls [OF seen guard disjI2 [OF step]]
  have "surface_calls d' = surface_calls d @ iteration_calls gh H L N (scroll_attempts d)"
    unfolding iteration_calls_def fresh_links_Suc urls .
  with trace have trace1: "surface_calls d'
      = concat (map (iteration_calls gh H L N) [0..<Suc (scroll_attempts d)])" by simp
  from guard have cap: "Suc (scroll_attempts d) \<le> max_scroll_attempts" by (simp add: loop_guard_def)
  from guard have "length (map link_url (collected_links d)) < nat N"
    by (simp add: loop_guard_def zless_nat_eq_int_zless)
  then have old: "length (fresh_links gh H (encountered L (scroll_attempts d))) < nat N"
    unfolding urls .
  note f = cycle_step_finished [OF seen guard step]
  from f have u': "map link_url (collected_links d')
      = take (nat N) (fresh_links gh H (encountered L (Suc (scroll_attempts d))))"
    unfolding fresh_links_Suc urls by simp
  from f votes have votes': "\<forall>l \<in> set (collected_links d'). votes_preview l = None"
    and le: "int (length (collected_links d')) \<le> N" by blast+
  from f have calls: "surface_calls d' = surface_calls d @ [FindContainers]
          \<or> surface_calls d' = surface_calls d @ [FindContainers, ScrollToBottom]
              \<and> length (fresh_links gh H (encountered L (Suc (scroll_attempts d)))) < nat N"
    unfolding fresh_links_Suc urls by blast
  from calls sc cap have sc': "scroll_count (surface_calls d') \<le> max_scroll_attempts" by auto
  from calls it have it1: "iteration_count (surface_calls d') = Suc (scroll_attempts d)" by auto
  with cap have it': "iteration_count (surface_calls d') \<le> max_scroll_attempts" by simp
  from it1 have pos: "0 < N \<longrightarrow> 0 < iteration_count (surface_calls d')" by simp
  note k = u' [folded it1]
  have below': "\<forall>j < scroll_count (surface_calls d').
            length (fresh_links gh H (encountered L (Suc j))) < nat N"
  proof (intro allI impI)
    fix j assume j: "j < scroll_count (surface_calls d')"
    from calls show "length (fresh_links gh H (encountered L (Suc j))) < nat N"
    proof (elim disjE conjE)
      assume "surface_calls d' = surface_calls d @ [FindContainers]"
      with j sc have "j < scroll_attempts d" by simp
      with below show ?thesis by blast
    next
      assume c: "surface_calls d' = surface_calls d @ [FindContainers, ScrollToBottom]"
        and new: "length (fresh_links gh H (encountered L (Suc (scroll_attempts d)))) < nat N"
      from c j sc have "j < scroll_attempts d \<or> j = scroll_attempts d" by auto
      with below new show ?thesis by blast
    qed
  qed
  have earlier: "\<forall>j. Suc j < iteration_count (surface_calls d')
            \<longrightarrow> length (fresh_links gh H (encountered L (Suc j))) < nat N"
    unfolding it1 using below by simp
  from calls just it old cap have just': "calls_justified gh H L N 0 (surface_calls d')"
    by (auto simp: calls_justified_append)
  note trace' = trace1 [folded it1]
  from cycle_step_finished_reason [OF seen guard step] it1
  have why: "int (length (collected_links d')) < N \<longrightarrow>
            iteration_count (surface_calls d') = max_scroll_attempts
            \<or> (\<exists>k h. iteration_count (surface_calls d') = Suc k \<and> quiet_cycle (L k)
                      \<and> scroll_heights (L k) = Inr (h, h))"
    by auto
  from k pos votes' sc' it' below' earlier le just' trace' why show ?thesis
    unfolding disc_done_def by blast
qed

lemma disc_ok_exit:
  assumes ok: "disc_ok gh H L N d" and guard: "\<not> loop_guard N d"
  shows "disc_done gh H L N d"
proof -
  from ok have urls: "map link_url (collected_links d) = fresh_links gh H (encountered L (scroll_attempts d))"
    and votes: "\<forall>l \<in> set (collected_links d). votes_preview l = None"
    and sc: "scroll_count (surface_calls d) \<le> scroll_attempts d"
    and it: "iteration_count (surface_calls d) = scroll_attempts d"
    and cap: "scroll_attempts d \<le> max_scroll_attempts"
    and below: "\<forall>j < scroll_attempts d. length (fresh_links gh H (encountered L (Suc j))) < nat N"
    and small: "int (length (collected_links d)) < N \<or> collected_links d = []"
    and just: "calls_justified gh H L N 0 (surface_calls d)"
    and trace: "surface_calls d = concat (map (iteration_calls gh H L N) [0..<scroll_attempts d])"
    unfolding disc_ok_def by blast+
  from small have "length (map link_url (collected_links d)) \<le> nat N" by auto
  then have "map link_url (collected_links d) = take (nat N) (map link_url (collected_links d))"
    by simp
  then have k: "map link_url (collected_links d)
      = take (nat N) (fresh_links gh H (encountered L (iteration_count (surface_calls d))))"
    using urls it by simp
  have pos: "0 < N \<longrightarrow> 0 < iteration_count (surface_calls d)"
  proof
    assume N: "0 < N"
    with small have "int (length (collected_links d)) < N" by auto
    with guard have "scroll_attempts d \<ge> max_scroll_attempts" by (simp add: loop_guard_def)
    with it show "0 < iteration_count (surface_calls d)" by (simp add: max_scroll_attempts_def)
  qed
  from small have le: "int (length (collected_links d)) \<le> N \<or> collected_links d = []" by auto
  from sc cap have sc': "scroll_count (surface_calls d) \<le> max_scroll_attempts" by simp
  from it cap have it': "iteration_count (surface_calls d) \<le> max_scroll_attempts" by simp
  from below sc have below': "\<forall>j < scroll_count (surface_calls d).
            length (fresh_links gh H (encountered L (Suc j))) < nat N" by auto
  have earlier: "\<forall>j. Suc j < iteration_count (surface_calls d)
            \<longrightarrow> length (fresh_links gh H (encountered L (Suc j))) < nat N"
    unfolding it using below by simp
  note trace' = trace [folded it]
  from guard cap it
  have why: "int (length (collected_links d)) < N \<longrightarrow>
            iteration_count (surface_calls d) = max_scroll_attempts
            \<or> (\<exists>k h. iteration_count (surface_calls d) = Suc k \<and> quiet_cycle (L k)
                      \<and> scroll_heights (L k) = Inr (h, h))"
    by (auto simp: loop_guard_def)
  from k pos votes sc' it' below' earlier le just trace' why show ?thesis
    unfolding disc_done_def by blast
qed

lemma discovery_loop_done:
  "disc_ok gh H L N d \<Longrightarrow> disc_done gh H L N (discovery_loop gh H L N d)"
  by (rule discovery_loop_induct [where I = "disc_ok gh H L N" and Q = "disc_done gh H L N"])
     (auto intro: disc_ok_again disc_ok_finished disc_ok_exit)

lemma disc_ok_start:
  "disc_ok gh H L N \<lparr>collected_links = [], seen_links = {}, scroll_attempts = 0, surface_calls = []\<rparr>"
  by (simp add: disc_ok_def fresh_links_def encountered_def scroll_count_def iteration_count_def)

lemma fresh_foldl_sound:
  assumes "distinct acc" "\<forall>l \<in> set acc. gh l \<notin> H"
  shows "distinct (foldl (fresh_step gh H) acc ls)
         \<and> (\<forall>l \<in> set (foldl (fresh_step gh H) acc ls). gh l \<notin> H)"
  using assms
proof (induction ls arbitrary: acc)
  case Nil
  then show ?case by simp
next
  case (Cons l ls)
  have "distinct (fresh_step gh H acc l)" "\<forall>x \<in> set (fresh_step gh H acc l). gh x \<notin> H"
    using Cons.prems by (auto simp: fresh_step_def)
  from Cons.IH [OF this] show ?case by simp
qed

lemma fresh_links_sound:
  "distinct (fresh_links gh H ls) \<and> (\<forall>l \<in> set (fresh_links gh H ls). gh l \<notin> H)"
  unfolding fresh_links_def by (rule fresh_foldl_sound) simp_all

lemma fresh_links_prefix:
  "\<exists>zs. fresh_links gh H (xs @ ys) = fresh_links gh H xs @ zs"
  unfolding fresh_links_def foldl_append by (rule fresh_foldl_extends)

lemma encountered_prefix:
  "0 < k \<Longrightarrow> \<exists>ys. encountered L k = cycle_links L 0 @ ys"
proof (induction k)
  case 0
  then show ?case by simp
next
  case (Suc k)
  show ?case
  proof (cases "k = 0")
    case True
    then show ?thesis by (simp add: encountered_def)
  next
    case False
    with Suc.IH obtain ys where "encountered L k = cycle_links L 0 @ ys" by auto
    then have "encountered L (Suc k) = cycle_links L 0 @ (ys @ cycle_links L k)"
      by (simp add: encountered_def)
    then show ?thesis by blast
  qed
qed

lemma take_fresh_first_cycle:
  assumes "0 < k" "n \<le> length (fresh_links gh H (cycle_links L 0))"
  shows "take n (fresh_links gh H (encountered L k)) = take n (fresh_links gh H (cycle_links L 0))"
proof -
  from encountered_prefix [OF assms(1)] obtain ys where "encountered L k = cycle_links L 0 @ ys"
    by blast
  with fresh_links_prefix [of gh H "cycle_links L 0" ys] obtain zs where
    "fresh_links gh H (encountered L k) = fresh_links gh H (cycle_links L 0) @ zs" by auto
  with assms(2) show ?thesis by simp
qed

lemma collect_post_links_result:
  assumes "collect_post_links gh gf L dir N = Inr (links, self, calls)"
  shows "setup_community_dir dir = Inr self \<and> gf = None
         \<and> (\<exists>d. disc_done gh (collected_hashes self) L N d
                \<and> links = collected_links d \<and> calls = surface_calls d)"
proof -
  from assms have s: "setup_community_dir dir = Inr self" and g: "gf = None"
    by (auto simp: collect_post_links_def Let_def split: sum.splits option.splits)
  let ?d = "discovery_loop gh (collected_hashes self) L N
              \<lparr>collected_links = [], seen_links = {}, scroll_attempts = 0, surface_calls = []\<rparr>"
  from assms s g have l: "links = py_take N (collected_links ?d)" and c: "calls = surface_calls ?d"
    by (simp_all add: collect_post_links_def Let_def)
  have fin: "disc_done gh (collected_hashes self) L N ?d"
    by (rule discovery_loop_done [OF disc_ok_start])
  from fin have "int (length (collected_links ?d)) \<le> N \<or> collected_links ?d = []"
    unfolding disc_done_def by blast
  then have "py_take N (collected_links ?d) = collected_links ?d"
    by (auto simp: py_take_def)
  with l c s g fin show ?thesis by auto
qed

text \<open>
  C3 (discovery output). Whenever \<^verbatim>\<open>collect_post_links\<close> returns, for any target count
  \<open>N\<close>: the fingerprint set it used is the one loaded from the scope; at most \<open>N\<close> links
  are returned; they are the not-yet-seen links of the iterations made, in encounter
  order, cut at \<open>N\<close>; no link occurs twice; no link's fingerprint is in the loaded set;
  every scroll took place, and every iteration but the last ended, while the links shown
  so far held fewer than \<open>N\<close> fresh ones, so neither a scroll nor an iteration follows
  the iteration that reaches \<open>N\<close>; position by position in the trace of calls made on
  the listing, a scroll is found only where the iterations before it, its own included,
  had shown fewer than \<open>N\<close> fresh links, and a search for containers only where the
  iterations before it had; the trace is, iteration by iteration, one search for
  containers followed by a scroll exactly when nothing raised in the iteration and fewer
  than \<open>N\<close> fresh links had been shown by its end; fewer than \<open>N\<close> links are returned
  only after 50 iterations or after an iteration in which nothing raised and the scroll
  left the content height unchanged; and when the first view alone
  holds at least \<open>N\<close> fresh links, no scroll is made and the first \<open>N\<close> of them are
  returned.
\<close>

theorem collect_post_links_fresh:
  assumes "collect_post_links gh gf L dir N = Inr (links, self, calls)"
  shows "setup_community_dir dir = Inr self
         \<and> length links \<le> nat N
         \<and> map link_url links
             = take (nat N) (fresh_links gh (collected_hashes self)
                               (encountered L (iteration_count calls)))
         \<and> distinct (map link_url links)
         \<and> (\<forall>l \<in> set links. gh (link_url l) \<notin> collected_hashes self)
         \<and> (\<forall>j < scroll_count calls.
               length (fresh_links gh (collected_hashes self) (encountered L (Suc j))) < nat N)
         \<and> (\<forall>j. Suc j < iteration_count calls \<longrightarrow>
               length (fresh_links gh (collected_hashes self) (encountered L (Suc j))) < nat N)
         \<and> (\<forall>before after. calls = before @ ScrollToBottom # after \<longrightarrow>
               length (fresh_links gh (collected_hashes self)
                         (encountered L (iteration_count before))) < nat N)
         \<and> (\<forall>before after. calls = before @ FindContainers # after \<longrightarrow>
               length (fresh_links gh (collected_hashes self)
                         (encountered L (iteration_count before))) < nat N)
         \<and> calls = concat (map (iteration_calls gh (collected_hashes self) L N)
                             [0..<iteration_count calls])
         \<and> (length links < nat N \<longrightarrow>
               iteration_count calls = 50
               \<or> (\<exists>k h. iteration_count calls = Suc k \<and> quiet_cycle (L k)
                         \<and> scroll_heights (L k) = Inr (h, h)))
         \<and> (nat N \<le> length (fresh_links gh (collected_hashes self) (cycle_links L 0)) \<longrightarrow>
               scroll_count calls = 0
               \<and> map link_url links
                   = take (nat N) (fresh_links gh (collected_hashes self) (cycle_links L 0)))"
proof -
  let ?H = "collected_hashes self"
  from collect_post_links_result [OF assms] obtain d where
    s: "setup_community_dir dir = Inr self"
    and fin: "disc_done gh ?H L N d"
    and l: "links = collected_links d" and c: "calls = surface_calls d" by blast
  from fin have u: "map link_url links
        = take (nat N) (fresh_links gh ?H (encountered L (iteration_count calls)))"
    and pos: "0 < N \<longrightarrow> 0 < iteration_count calls"
    and below: "\<forall>j < scroll_count calls. length (fresh_links gh ?H (encountered L (Suc j))) < nat N"
    and earlier: "\<forall>j. Suc j < iteration_count calls \<longrightarrow>
               length (fresh_links gh ?H (encountered L (Suc j))) < nat N"
    and just: "calls_justified gh ?H L N 0 calls"
    and trace: "calls = concat (map (iteration_calls gh ?H L N) [0..<iteration_count calls])"
    and why: "int (length links) < N \<longrightarrow>
            iteration_count calls = max_scroll_attempts
            \<or> (\<exists>k h. iteration_count calls = Suc k \<and> quiet_cycle (L k)
                      \<and> scroll_heights (L k) = Inr (h, h))"
    unfolding disc_done_def l c by blast+
  have short: "length links < nat N \<longrightarrow>
               iteration_count calls = 50
               \<or> (\<exists>k h. iteration_count calls = Suc k \<and> quiet_cycle (L k)
                         \<and> scroll_heights (L k) = Inr (h, h))"
    using why by (simp add: zless_nat_eq_int_zless max_scroll_attempts_def)
  have scrolls: "\<forall>before after. calls = before @ ScrollToBottom # after \<longrightarrow>
               length (fresh_links gh ?H (encountered L (iteration_count before))) < nat N"
    using just by (auto dest: calls_justified_at)
  have finds: "\<forall>before after. calls = before @ FindContainers # after \<longrightarrow>
               length (fresh_links gh ?H (encountered L (iteration_count before))) < nat N"
    using just by (auto dest: calls_justified_at)
  from arg_cong [OF u, of length] have len: "length links \<le> nat N" by simp
  from fresh_links_sound [of gh ?H "encountered L (iteration_count calls)"]
  have dist: "distinct (map link_url links)" unfolding u by simp
  have hashes: "\<forall>l \<in> set links. gh (link_url l) \<notin> ?H"
  proof
    fix x assume "x \<in> set links"
    then have "link_url x \<in> set (map link_url links)" by simp
    then have "link_url x \<in> set (fresh_links gh ?H (encountered L (iteration_count calls)))"
      unfolding u by (rule in_set_takeD)
    with fresh_links_sound [of gh ?H "encountered L (iteration_count calls)"]
    show "gh (link_url x) \<notin> ?H" by blast
  qed
  have first: "nat N \<le> length (fresh_links gh ?H (cycle_links L 0)) \<longrightarrow>
               scroll_count calls = 0
               \<and> map link_url links = take (nat N) (fresh_links gh ?H (cycle_links L 0))"
  proof
    assume enough: "nat N \<le> length (fresh_links gh ?H (cycle_links L 0))"
    have e1: "encountered L (Suc 0) = cycle_links L 0" by (simp add: encountered_def)
    have z: "scroll_count calls = 0"
    proof (rule ccontr)
      assume "scroll_count calls \<noteq> 0"
      then have "0 < scroll_count calls" by simp
      with below have "length (fresh_links gh ?H (encountered L (Suc 0))) < nat N" by blast
      with enough show False unfolding e1 by simp
    qed
    have "map link_url links = take (nat N) (fresh_links gh ?H (cycle_links L 0))"
    proof (cases "0 < N")
      case True
      with pos have "0 < iteration_count calls" by simp
      from take_fresh_first_cycle [OF this enough] u show ?thesis by simp
    next
      case False
      with u show ?thesis by simp
    qed
    with z show "scroll_count calls = 0
               \<and> map link_url links = take (nat N) (fresh_links gh ?H (cycle_links L 0))" by simp
  qed
  from s len u dist hashes below earlier scrolls finds trace short first show ?thesis by blast
qed

theorem collect_post_links_fresh_witness:
  "(let gh = (\<lambda>s. s);
        dir = \<lparr>item_files = (\<lambda>i. Absent), id_tracker_file = Absent,
               hash_tracker_file = Holds (Some {''b'', ''d''})\<rparr>;
        L = (\<lambda>k. \<lparr>post_containers = Inr [Inr (Some ''a''), Inr (Some ''b''), Inr (Some ''c''),
                                         Inr (Some ''d''), Inr (Some ''e'')],
                    scroll_heights = Inr (100, 200)\<rparr>);
        self = \<lparr>next_id = 1, collected_hashes = {''b'', ''d''}, community_dir = dir\<rparr>;
        links = [\<lparr>link_url = ''a'', votes_preview = None\<rparr>, \<lparr>link_url = ''c'', votes_preview = None\<rparr>,
                 \<lparr>link_url = ''e'', votes_preview = None\<rparr>];
        failing_first = (\<lambda>k. if k = 0 then \<lparr>post_containers = Inl WebDriverException,
                                               scroll_heights = Inr (100, 200)\<rparr>
                               else L k);
        growing = (\<lambda>k. \<lparr>post_containers = Inr (if k = 0 then [Inr (Some ''b''), Inr (Some ''a'')]
                                                  else [Inr (Some ''a''), Inr (Some ''c'')]),
                          scroll_heights = Inr (100, 200)\<rparr>)
    in collect_post_links gh None L dir 3 = Inr (links, self, [FindContainers])
       \<and> collect_post_links gh None failing_first dir 1
            = Inr ([\<lparr>link_url = ''a'', votes_preview = None\<rparr>], self,
                   [FindContainers, FindContainers])
       \<and> collect_post_links gh None growing dir 2
            = Inr ([\<lparr>link_url = ''a'', votes_preview = None\<rparr>,
                    \<lparr>link_url = ''c'', votes_preview = None\<rparr>], self,
                   [FindContainers, ScrollToBottom, FindContainers])
       \<and> fresh_links gh (collected_hashes self) (cycle_links L 0) = [''a'', ''c'', ''e'']
       \<and> scroll_count [FindContainers] = 0
       \<and> setup_community_dir dir = Inr self
       \<and> distinct (map link_url links)
       \<and> list_all (\<lambda>l. gh (link_url l) \<notin> collected_hashes self) links)"
proof -
  let ?gh = "\<lambda>s::string. s"
  let ?dir = "\<lparr>item_files = (\<lambda>i. Absent), id_tracker_file = Absent,
               hash_tracker_file = Holds (Some {''b'', ''d''})\<rparr>"
  let ?L = "\<lambda>k::nat. \<lparr>post_containers = Inr [Inr (Some ''a''), Inr (Some ''b''), Inr (Some ''c''),
                                         Inr (Some ''d''), Inr (Some ''e'')],
                    scroll_heights = Inr (100, 200)\<rparr>"
  let ?self = "\<lparr>next_id = 1, collected_hashes = {''b'', ''d''}, community_dir = ?dir\<rparr>"
  let ?links = "[\<lparr>link_url = ''a'', votes_preview = None\<rparr>, \<lparr>link_url = ''c'', votes_preview = None\<rparr>,
                 \<lparr>link_url = ''e'', votes_preview = None\<rparr>]"
  have ev: "collect_post_links ?gh None ?L ?dir 3 = Inr (?links, ?self, [FindContainers])"
    by (simp add: collect_post_links_def setup_community_dir_def load_next_id_def
          load_collected_hashes_def discovery_loop_unfold loop_guard_def cycle_step_def
          max_scroll_attempts_def Let_def py_take_def)
  have fr: "fresh_links ?gh (collected_hashes ?self) (cycle_links ?L 0) = [''a'', ''c'', ''e'']"
    by (simp add: fresh_links_def fresh_step_def cycle_links_def)
  let ?failing_first = "\<lambda>k::nat. if k = 0 then \<lparr>post_containers = Inl WebDriverException,
                                               scroll_heights = Inr (100, 200)\<rparr>
                               else ?L k"
  let ?growing = "\<lambda>k::nat. \<lparr>post_containers = Inr (if k = 0 then [Inr (Some ''b''), Inr (Some ''a'')]
                                                  else [Inr (Some ''a''), Inr (Some ''c'')]),
                          scroll_heights = Inr (100, 200)\<rparr>"
  have ev2: "collect_post_links ?gh None ?failing_first ?dir 1
            = Inr ([\<lparr>link_url = ''a'', votes_preview = None\<rparr>], ?self,
                   [FindContainers, FindContainers])"
    by (simp add: collect_post_links_def setup_community_dir_def load_next_id_def
          load_collected_hashes_def discovery_loop_unfold loop_guard_def cycle_step_def
          max_scroll_attempts_def Let_def py_take_def)
  have ev3: "collect_post_links ?gh None ?growing ?dir 2
            = Inr ([\<lparr>link_url = ''a'', votes_preview = None\<rparr>,
                    \<lparr>link_url = ''c'', votes_preview = None\<rparr>], ?self,
                   [FindContainers, ScrollToBottom, FindContainers])"
    by (simp add: collect_post_links_def setup_community_dir_def load_next_id_def
          load_collected_hashes_def discovery_loop_unfold loop_guard_def cycle_step_def
          scroll_and_wait_def max_scroll_attempts_def Let_def py_take_def)
  note t = collect_post_links_fresh [OF ev]
  from t have a: "setup_community_dir ?dir = Inr ?self" by (rule conjunct1)
  from t have d: "distinct (map link_url ?links)" by blast
  from t have h: "\<forall>l \<in> set ?links. ?gh (link_url l) \<notin> collected_hashes ?self" by blast
  have z: "scroll_count [FindContainers] = 0" by (simp add: scroll_count_def)
  from ev ev2 ev3 fr a d h z show ?thesis by (simp add: Let_def)
qed

subsection \<open>Termination and exhaustion\<close>

lemma scan_containers_calls:
  "surface_calls (snd (scan_containers gh H N cs d)) = surface_calls d
   \<and> scroll_attempts (snd (scan_containers gh H N cs d)) = scroll_attempts d"
proof (induction cs arbitrary: d)
  case Nil
  then show ?case by simp
next
  case (Cons c cs)
  show ?case
  proof (cases c)
    case (Inl e)
    with Cons show ?thesis by simp
  next
    case (Inr lo)
    show ?thesis
    proof (cases lo)
      case None
      with Inr Cons show ?thesis by simp
    next
      case (Some link)
      with Inr Cons show ?thesis by (simp add: Let_def)
    qed
  qed
qed

lemma cycle_step_iterations:
  "cycle_step gh H L N d = Again d' \<or> cycle_step gh H L N d = Finished d'
   \<Longrightarrow> iteration_count (surface_calls d') = Suc (iteration_count (surface_calls d))"
proof (cases "post_containers (L (scroll_attempts d))")
  case (Inl e)
  assume "cycle_step gh H L N d = Again d' \<or> cycle_step gh H L N d = Finished d'"
  with Inl show ?thesis by (auto simp: cycle_step_def Let_def)
next
  case (Inr cs)
  assume step: "cycle_step gh H L N d = Again d' \<or> cycle_step gh H L N d = Finished d'"
  let ?d0 = "d\<lparr>surface_calls := surface_calls d @ [FindContainers]\<rparr>"
  obtain r d1 where sc: "scan_containers gh H N cs ?d0 = (r, d1)"
    by (cases "scan_containers gh H N cs ?d0")
  from scan_containers_calls [of gh H N cs ?d0] sc
  have c1: "surface_calls d1 = surface_calls d @ [FindContainers]" by simp
  from step Inr sc have "surface_calls d' = surface_calls d1
      \<or> surface_calls d' = surface_calls d1 @ [ScrollToBottom]"
    by (auto simp: cycle_step_def Let_def split: option.splits if_splits sum.splits)
  with c1 show ?thesis by (auto simp: iteration_count_def)
qed

lemma quiet_unchanged_finishes:
  assumes "quiet_cycle (L (scroll_attempts d))"
    and "scroll_heights (L (scroll_attempts d)) = Inr (h, h)"
  shows "cycle_step gh H L N d \<noteq> Again d'"
proof -
  from assms(1) obtain cs where cs: "post_containers (L (scroll_attempts d)) = Inr cs"
    and q: "list_all (\<lambda>r. case r of
                    Inl e \<Rightarrow> e = StaleElementReferenceException \<or> e = NoSuchElementException
                  | Inr link \<Rightarrow> True) cs"
    by (auto simp: quiet_cycle_def split: sum.splits)
  let ?d0 = "d\<lparr>surface_calls := surface_calls d @ [FindContainers]\<rparr>"
  obtain r d1 where sc: "scan_containers gh H N cs ?d0 = (r, d1)"
    by (cases "scan_containers gh H N cs ?d0")
  from scan_quiet [OF q, of gh H N ?d0] sc have r: "r = None" by simp
  show ?thesis using cs sc r assms(2)
    by (simp add: cycle_step_def Let_def scroll_and_wait_def)
qed

lemma no_iteration_after_exhaustion:
  assumes quiet: "quiet_cycle (L k)" and same: "scroll_heights (L k) = Inr (h, h)"
    and start: "iteration_count (surface_calls d) = scroll_attempts d" "scroll_attempts d \<le> k"
  shows "iteration_count (surface_calls (discovery_loop gh H L N d)) \<le> Suc k"
proof (rule discovery_loop_induct
    [where I = "\<lambda>d. iteration_count (surface_calls d) = scroll_attempts d \<and> scroll_attempts d \<le> k"
       and Q = "\<lambda>d. iteration_count (surface_calls d) \<le> Suc k"])
  show "iteration_count (surface_calls d) = scroll_attempts d \<and> scroll_attempts d \<le> k"
    using start by simp
next
  fix d d'
  assume I: "iteration_count (surface_calls d) = scroll_attempts d \<and> scroll_attempts d \<le> k"
    and step: "cycle_step gh H L N d = Again d'"
  have "scroll_attempts d \<noteq> k"
  proof
    assume "scroll_attempts d = k"
    with quiet same quiet_unchanged_finishes [of L d h gh H N d'] step show False by simp
  qed
  with I have "scroll_attempts d < k" by simp
  with I cycle_step_attempts [OF step] cycle_step_iterations [of gh H L N d d'] step
  show "iteration_count (surface_calls d') = scroll_attempts d' \<and> scroll_attempts d' \<le> k"
    by simp
next
  fix d d'
  assume I: "iteration_count (surface_calls d) = scroll_attempts d \<and> scroll_attempts d \<le> k"
    and step: "cycle_step gh H L N d = Finished d'"
  with cycle_step_iterations [of gh H L N d d']
  show "iteration_count (surface_calls d') \<le> Suc k" by simp
next
  fix d
  assume "iteration_count (surface_calls d) = scroll_attempts d \<and> scroll_attempts d \<le> k"
  then show "iteration_count (surface_calls d) \<le> Suc k" by simp
qed

text \<open>
  C9 (bounded discovery). The loop is a total function: once the trackers are loaded and
  the listing opened, \<^verbatim>\<open>collect_post_links\<close> returns a list for every listing and every
  target count. It makes at most 50 iterations and at most 50 scrolls; no iteration
  follows one in which nothing raised and the scroll left the content height unchanged;
  the list returned is whatever was accumulated in the iterations made, also when it is
  shorter than the target; and every iteration that does not leave the loop, whichever
  way it ends, adds one to \<^verbatim>\<open>scroll_attempts\<close>.
\<close>

theorem discovery_loop_terminates:
  assumes "setup_community_dir dir = Inr self"
  shows "\<exists>links calls.
           collect_post_links gh None L dir N = Inr (links, self, calls)
           \<and> iteration_count calls \<le> 50
           \<and> scroll_count calls \<le> 50
           \<and> (\<forall>k h. quiet_cycle (L k) \<and> scroll_heights (L k) = Inr (h, h)
                  \<longrightarrow> iteration_count calls \<le> Suc k)
           \<and> map link_url links
               = take (nat N) (fresh_links gh (collected_hashes self)
                                 (encountered L (iteration_count calls)))
           \<and> (\<forall>d d'. cycle_step gh (collected_hashes self) L N d = Again d'
                  \<longrightarrow> scroll_attempts d' = scroll_attempts d + 1)"
proof -
  let ?H = "collected_hashes self"
  let ?d0 = "\<lparr>collected_links = [], seen_links = {}, scroll_attempts = 0, surface_calls = []\<rparr>"
  let ?d = "discovery_loop gh ?H L N ?d0"
  have r: "collect_post_links gh None L dir N
             = Inr (py_take N (collected_links ?d), self, surface_calls ?d)"
    using assms by (simp add: collect_post_links_def Let_def)
  from collect_post_links_result [OF r] obtain d where
    fin: "disc_done gh ?H L N d" and l: "py_take N (collected_links ?d) = collected_links d"
    and c: "surface_calls ?d = surface_calls d" by blast
  from fin have it: "iteration_count (surface_calls ?d) \<le> 50"
    and sc: "scroll_count (surface_calls ?d) \<le> 50"
    and u: "map link_url (py_take N (collected_links ?d))
              = take (nat N) (fresh_links gh ?H (encountered L (iteration_count (surface_calls ?d))))"
    unfolding disc_done_def l c max_scroll_attempts_def by blast+
  have ex: "\<forall>k h. quiet_cycle (L k) \<and> scroll_heights (L k) = Inr (h, h)
                  \<longrightarrow> iteration_count (surface_calls ?d) \<le> Suc k"
  proof (intro allI impI)
    fix k h assume "quiet_cycle (L k) \<and> scroll_heights (L k) = Inr (h, h)"
    then have q: "quiet_cycle (L k)" and s: "scroll_heights (L k) = Inr (h, h)" by simp_all
    show "iteration_count (surface_calls ?d) \<le> Suc k"
      by (rule no_iteration_after_exhaustion [of L k h, OF q s]) (simp_all add: iteration_count_def)
  qed
  have at: "\<forall>d d'. cycle_step gh ?H L N d = Again d'
                  \<longrightarrow> scroll_attempts d' = scroll_attempts d + 1"
    using cycle_step_attempts by blast
  from r it sc ex u at show ?thesis by blast
qed

theorem discovery_loop_terminates_witness:
  "(let gh = (\<lambda>s. s);
        dir = \<lparr>item_files = (\<lambda>i. Absent), id_tracker_file = Absent, hash_tracker_file = Absent\<rparr>;
        self = \<lparr>next_id = 1, collected_hashes = {}, community_dir = dir\<rparr>;
        L = (\<lambda>k. \<lparr>post_containers = Inr [Inr (Some ''a''), Inl StaleElementReferenceException],
                    scroll_heights = Inr (100, 100)\<rparr>)
    in setup_community_dir dir = Inr self
       \<and> quiet_cycle (L 0) \<and> scroll_heights (L 0) = Inr (100, 100)
       \<and> collect_post_links gh None L dir 3
            = Inr ([\<lparr>link_url = ''a'', votes_preview = None\<rparr>], self,
                   [FindContainers, ScrollToBottom])
       \<and> iteration_count [FindContainers, ScrollToBottom] \<le> Suc 0
       \<and> scroll_count [FindContainers, ScrollToBottom] \<le> 50)"
proof -
  let ?gh = "\<lambda>s::string. s"
  let ?dir = "\<lparr>item_files = (\<lambda>i. Absent), id_tracker_file = Absent, hash_tracker_file = Absent\<rparr>"
  let ?self = "\<lparr>next_id = 1, collected_hashes = {}, community_dir = ?dir\<rparr>"
  let ?L = "\<lambda>k::nat. \<lparr>post_containers = Inr [Inr (Some ''a''), Inl StaleElementReferenceException],
                    scroll_heights = Inr (100, 100)\<rparr>"
  have s: "setup_community_dir ?dir = Inr ?self"
    by (simp add: setup_community_dir_def load_next_id_def load_collected_hashes_def)
  have q: "quiet_cycle (?L 0)" by (simp add: quiet_cycle_def)
  have h: "scroll_heights (?L 0) = Inr (100, 100)" by simp
  have ev: "collect_post_links ?gh None ?L ?dir 3
            = Inr ([\<lparr>link_url = ''a'', votes_preview = None\<rparr>], ?self,
                   [FindContainers, ScrollToBottom])"
    by (simp add: collect_post_links_def setup_community_dir_def load_next_id_def
          load_collected_hashes_def discovery_loop_unfold loop_guard_def cycle_step_def
          max_scroll_attempts_def Let_def py_take_def scroll_and_wait_def)
  from discovery_loop_terminates [OF s, of ?gh ?L 3] ev q h
  have "iteration_count [FindContainers, ScrollToBottom] \<le> Suc 0
        \<and> scroll_count [FindContainers, ScrollToBottom] \<le> 50" by auto
  with s q h ev show ?thesis by (simp add: Let_def)
qed

subsection \<open>The pre-observed score\<close>

lemma extract_post_data_votes:
  "extract_post_data gh pg u pv = Some post \<Longrightarrow> votes post = extract_votes pg pv"
  by (auto simp: extract_post_data_def Let_def split: option.splits sum.splits if_splits)

lemma fallback_gives_preview:
  "votes_fallback_taken pg \<Longrightarrow> extract_votes pg pv = pv"
  by (auto simp: votes_fallback_taken_def extract_votes_def split: sum.splits if_splits)

lemma extract_post_data_url:
  "extract_post_data gh pg u pv = Some post \<Longrightarrow> url post = u"
  by (auto simp: extract_post_data_def Let_def split: option.splits sum.splits if_splits)

lemma save_post_files:
  "save_post io post self = (r, self') \<Longrightarrow>
     item_files (community_dir self') i = item_files (community_dir self) i
     \<or> item_files (community_dir self') i = Corrupt
     \<or> item_files (community_dir self') i = Holds (post\<lparr>item_id := Some i\<rparr>)"
  by (cases "item_write io"; cases "id_write io"; cases "hash_write io"; cases "title post")
     (auto simp: save_post_def Let_def write_file_def save_next_id_def save_collected_hashes_def)

lemma process_posts_files:
  "process_posts gh w links self s f = (r, self') \<Longrightarrow>
     item_files (community_dir self') i = item_files (community_dir self) i
     \<or> item_files (community_dir self') i = Corrupt
     \<or> (\<exists>l \<in> set links. \<exists>post.
           extract_post_data gh (post_pages w (link_url l)) (link_url l) (votes_preview l) = Some post
           \<and> item_files (community_dir self') i = Holds (post\<lparr>item_id := Some i\<rparr>))"
proof (induction links arbitrary: self s f)
  case Nil
  then show ?case by simp
next
  case (Cons l links)
  show ?case
  proof (cases "extract_post_data gh (post_pages w (link_url l)) (link_url l) (votes_preview l)")
    case None
    with Cons.prems have "process_posts gh w links self s (f + 1) = (r, self')" by simp
    from Cons.IH [OF this] show ?thesis by auto
  next
    case (Some post)
    obtain r1 self1 where sp: "save_post (disk_faults w (next_id self)) post self = (r1, self1)"
      by (cases "save_post (disk_faults w (next_id self)) post self")
    note one = save_post_files [OF sp, of i]
    show ?thesis
    proof (cases r1)
      case (Inl e)
      with Cons.prems Some sp have "self' = self1" by simp
      with one Some show ?thesis by auto
    next
      case (Inr post_id)
      with Cons.prems Some sp have "process_posts gh w links self1 (s + 1) f = (r, self')" by simp
      note rest = Cons.IH [OF this]
      from rest show ?thesis
      proof (elim disjE)
        assume "item_files (community_dir self') i = item_files (community_dir self1) i"
        with one Some show ?thesis by auto
      next
        assume "item_files (community_dir self') i = Corrupt"
        then show ?thesis by simp
      next
        assume "\<exists>l \<in> set links. \<exists>post.
           extract_post_data gh (post_pages w (link_url l)) (link_url l) (votes_preview l) = Some post
           \<and> item_files (community_dir self') i = Holds (post\<lparr>item_id := Some i\<rparr>)"
        then show ?thesis by auto
      qed
    qed
  qed
qed

lemma fetch_posts_scope:
  "snd (fetch_posts gh w dir N) = snd (fetch_posts_body gh w dir N)"
  by (simp add: fetch_posts_def split: prod.splits option.splits)

lemma fetch_posts_body_cases:
  "snd (fetch_posts_body gh w dir N) = dir
   \<or> (\<exists>links self calls r self'.
         collect_post_links gh (listing_load w) (listing_cycles w) dir N = Inr (links, self, calls)
         \<and> process_posts gh w links self 0 0 = (r, self')
         \<and> snd (fetch_posts_body gh w dir N) = community_dir self')"
  by (auto simp: fetch_posts_body_def split: sum.splits prod.splits if_splits)

lemma fetch_posts_written:
  assumes now: "item_files (snd (fetch_posts gh w dir N)) i = Holds post"
    and before: "item_files dir i \<noteq> Holds post"
  shows "\<exists>links self calls l extracted.
           collect_post_links gh (listing_load w) (listing_cycles w) dir N = Inr (links, self, calls)
           \<and> l \<in> set links
           \<and> extract_post_data gh (post_pages w (link_url l)) (link_url l) (votes_preview l)
               = Some extracted
           \<and> post = extracted\<lparr>item_id := Some i\<rparr>"
proof -
  from fetch_posts_body_cases [of gh w dir N] now before
  obtain links self calls r self' where
    c: "collect_post_links gh (listing_load w) (listing_cycles w) dir N = Inr (links, self, calls)"
    and p: "process_posts gh w links self 0 0 = (r, self')"
    and d: "snd (fetch_posts_body gh w dir N) = community_dir self'"
    unfolding fetch_posts_scope by auto
  from collect_post_links_result [OF c] have "setup_community_dir dir = Inr self" by simp
  from setup_in_step [OF this] have dir: "community_dir self = dir" by simp
  from now have h: "item_files (community_dir self') i = Holds post"
    unfolding fetch_posts_scope d .
  from process_posts_files [OF p, of i] h before dir
  obtain l extracted where "l \<in> set links"
    "extract_post_data gh (post_pages w (link_url l)) (link_url l) (votes_preview l) = Some extracted"
    "post = extracted\<lparr>item_id := Some i\<rparr>" by auto
  with c show ?thesis by blast
qed

text \<open>
  C10 (no pre-observed score). Every link that \<^verbatim>\<open>collect_post_links\<close> returns has
  \<^verbatim>\<open>votes_preview = None\<close>, so whenever the extraction of such a link reaches the handler
  that falls back to the pre-observed score, the item's score is \<^verbatim>\<open>None\<close>. In a run of
  \<^verbatim>\<open>fetch_posts\<close>, whatever the world answers: every item file the run leaves in the
  scope that was not there before holds, as its score, what the score block of
  \<^verbatim>\<open>extract_post_data\<close> gives on the page of the item's link with \<^verbatim>\<open>None\<close> as the
  pre-observed score, that is, \<^verbatim>\<open>None\<close> whenever the extraction of that page reaches
  the fallback handler.
\<close>

theorem discovered_links_have_no_preview:
  "(collect_post_links gh gf L dir N = Inr (links, self, calls) \<longrightarrow>
      (\<forall>l \<in> set links. votes_preview l = None)
      \<and> (\<forall>l \<in> set links. \<forall>pg post.
            votes_fallback_taken pg
            \<and> extract_post_data gh pg (link_url l) (votes_preview l) = Some post
            \<longrightarrow> votes post = None))
   \<and> (\<forall>i post.
         item_files (snd (fetch_posts gh w dir N)) i = Holds post \<and> item_files dir i \<noteq> Holds post
         \<longrightarrow> votes post = extract_votes (post_pages w (url post)) None
             \<and> (votes_fallback_taken (post_pages w (url post)) \<longrightarrow> votes post = None))"
proof -
  have none: "\<forall>l \<in> set links. votes_preview l = None"
    if c: "collect_post_links gh gf L dir N = Inr (links, self, calls)"
    for gf L links self calls
  proof -
    from collect_post_links_result [OF c] obtain d where
      fin: "disc_done gh (collected_hashes self) L N d" and l: "links = collected_links d" by blast
    from fin show ?thesis unfolding disc_done_def l by blast
  qed
  have first: "collect_post_links gh gf L dir N = Inr (links, self, calls) \<longrightarrow>
      (\<forall>l \<in> set links. votes_preview l = None)
      \<and> (\<forall>l \<in> set links. \<forall>pg post.
            votes_fallback_taken pg
            \<and> extract_post_data gh pg (link_url l) (votes_preview l) = Some post
            \<longrightarrow> votes post = None)"
  proof
    assume c: "collect_post_links gh gf L dir N = Inr (links, self, calls)"
    note n = none [OF c]
    have "\<forall>l \<in> set links. \<forall>pg post.
               votes_fallback_taken pg
               \<and> extract_post_data gh pg (link_url l) (votes_preview l) = Some post
               \<longrightarrow> votes post = None"
    proof (intro ballI allI impI)
      fix x pg post
      assume x: "x \<in> set links"
        and "votes_fallback_taken pg
               \<and> extract_post_data gh pg (link_url x) (votes_preview x) = Some post"
      then have f: "votes_fallback_taken pg"
        and e: "extract_post_data gh pg (link_url x) (votes_preview x) = Some post" by simp_all
      from extract_post_data_votes [OF e] fallback_gives_preview [OF f] n x
      show "votes post = None" by simp
    qed
    with n show "(\<forall>l \<in> set links. votes_preview l = None)
      \<and> (\<forall>l \<in> set links. \<forall>pg post.
            votes_fallback_taken pg
            \<and> extract_post_data gh pg (link_url l) (votes_preview l) = Some post
            \<longrightarrow> votes post = None)" by blast
  qed
  have second: "\<forall>i post.
         item_files (snd (fetch_posts gh w dir N)) i = Holds post \<and> item_files dir i \<noteq> Holds post
         \<longrightarrow> votes post = extract_votes (post_pages w (url post)) None
             \<and> (votes_fallback_taken (post_pages w (url post)) \<longrightarrow> votes post = None)"
  proof (intro allI impI)
    fix i post
    assume "item_files (snd (fetch_posts gh w dir N)) i = Holds post \<and> item_files dir i \<noteq> Holds post"
    then have now: "item_files (snd (fetch_posts gh w dir N)) i = Holds post"
      and before: "item_files dir i \<noteq> Holds post" by simp_all
    from fetch_posts_written [OF now before] obtain links' self' calls' l extracted where
      c: "collect_post_links gh (listing_load w) (listing_cycles w) dir N = Inr (links', self', calls')"
      and l: "l \<in> set links'"
      and e: "extract_post_data gh (post_pages w (link_url l)) (link_url l) (votes_preview l)
               = Some extracted"
      and p: "post = extracted\<lparr>item_id := Some i\<rparr>" by blast
    from none [OF c] l have pv: "votes_preview l = None" by blast
    from extract_post_data_url [OF e] p have u: "url post = link_url l" by simp
    from extract_post_data_votes [OF e] p pv
    have v: "votes post = extract_votes (post_pages w (url post)) None" unfolding u by simp
    from fallback_gives_preview [of "post_pages w (url post)" None] v
    show "votes post = extract_votes (post_pages w (url post)) None
             \<and> (votes_fallback_taken (post_pages w (url post)) \<longrightarrow> votes post = None)" by simp
  qed
  from first second show ?thesis by (rule conjI)
qed

theorem discovered_links_have_no_preview_witness:
  "(let gh = (\<lambda>s. s);
        dir = \<lparr>item_files = (\<lambda>i. Absent), id_tracker_file = Absent, hash_tracker_file = Absent\<rparr>;
        self = \<lparr>next_id = 1, collected_hashes = {}, community_dir = dir\<rparr>;
        L = (\<lambda>k. \<lparr>post_containers = Inr [Inr (Some ''a'')], scroll_heights = Inr (100, 100)\<rparr>);
        l = \<lparr>link_url = ''a'', votes_preview = None\<rparr>;
        pg = \<lparr>page_load = None, clock = ''t'', title_read = Inr ''T'',
               text_body_read = Inr [''p''],
               info_row_read = Inl StaleElementReferenceException,
               post_faceplate_read = Inr \<lparr>fp_text = ''12'', fp_number = Some ''12''\<rparr>,
               score_attribute_read = Inr (Some ''12''),
               comment_scrolls = None, comment_tree_read = Inr [], tab_close = None\<rparr>;
        w = \<lparr>fetcher_init = None, driver_start = None, window_maximize = None,
              listing_load = None, listing_cycles = L, post_pages = (\<lambda>u. pg),
              disk_faults = (\<lambda>i. \<lparr>item_write = WriteOk, id_write = WriteOk, hash_write = WriteOk\<rparr>),
              driver_quit = None\<rparr>;
        saved = \<lparr>url = ''a'', hash = ''a'', scraped_at = ''t'', title = Some ''T'',
                  description = Some ''p'', votes = None, comments = [], item_id = Some 1\<rparr>
    in collect_post_links gh None L dir 1 = Inr ([l], self, [FindContainers])
       \<and> votes_preview l = None
       \<and> votes_fallback_taken pg
       \<and> extract_post_data gh pg (link_url l) (votes_preview l)
            = Some \<lparr>url = ''a'', hash = ''a'', scraped_at = ''t'', title = Some ''T'',
                     description = Some ''p'', votes = None, comments = [], item_id = None\<rparr>
       \<and> item_files (snd (fetch_posts gh w dir 1)) 1 = Holds saved
       \<and> item_files dir 1 \<noteq> Holds saved
       \<and> votes_fallback_taken (post_pages w (url saved))
       \<and> votes saved = None)"
proof -
  let ?gh = "\<lambda>s::string. s"
  let ?dir = "\<lparr>item_files = (\<lambda>i. Absent), id_tracker_file = Absent, hash_tracker_file = Absent\<rparr>"
  let ?self = "\<lparr>next_id = 1, collected_hashes = {}, community_dir = ?dir\<rparr>"
  let ?L = "\<lambda>k::nat. \<lparr>post_containers = Inr [Inr (Some ''a'')], scroll_heights = Inr (100, 100)\<rparr>"
  let ?l = "\<lparr>link_url = ''a'', votes_preview = None\<rparr>"
  let ?pg = "\<lparr>page_load = None, clock = ''t'', title_read = Inr ''T'',
               text_body_read = Inr [''p''],
               info_row_read = Inl StaleElementReferenceException,
               post_faceplate_read = Inr \<lparr>fp_text = ''12'', fp_number = Some ''12''\<rparr>,
               score_attribute_read = Inr (Some ''12''),
               comment_scrolls = None, comment_tree_read = Inr [], tab_close = None\<rparr>"
  let ?w = "\<lparr>fetcher_init = None, driver_start = None, window_maximize = None,
              listing_load = None, listing_cycles = ?L, post_pages = (\<lambda>u. ?pg),
              disk_faults = (\<lambda>i. \<lparr>item_write = WriteOk, id_write = WriteOk, hash_write = WriteOk\<rparr>),
              driver_quit = None\<rparr>"
  let ?post = "\<lparr>url = ''a'', hash = ''a'', scraped_at = ''t'', title = Some ''T'',
                     description = Some ''p'', votes = None, comments = [], item_id = None\<rparr>"
  let ?saved = "\<lparr>url = ''a'', hash = ''a'', scraped_at = ''t'', title = Some ''T'',
                  description = Some ''p'', votes = None, comments = [], item_id = Some 1\<rparr>"
  have ev: "collect_post_links ?gh None ?L ?dir 1 = Inr ([?l], ?self, [FindContainers])"
    by (simp add: collect_post_links_def setup_community_dir_def load_next_id_def
          load_collected_hashes_def discovery_loop_unfold loop_guard_def cycle_step_def
          max_scroll_attempts_def Let_def py_take_def)
  have f: "votes_fallback_taken ?pg" by (simp add: votes_fallback_taken_def)
  have e: "extract_post_data ?gh ?pg (link_url ?l) (votes_preview ?l) = Some ?post"
    by (simp add: extract_post_data_def extract_votes_def extract_comments_def Let_def
          paragraph_text_def strip_def py_isspace_def)
  have e': "extract_post_data ?gh ?pg ''a'' None = Some ?post" using e by simp
  have run: "item_files (snd (fetch_posts ?gh ?w ?dir 1)) 1 = Holds ?saved"
    by (simp add: fetch_posts_scope fetch_posts_body_def setup_driver_def ev e'
          save_post_def Let_def write_file_def save_next_id_def save_collected_hashes_def)
  have before: "item_files ?dir 1 \<noteq> Holds ?saved" by simp
  note t = discovered_links_have_no_preview [of ?gh None ?L ?dir 1 "[?l]" ?self "[FindContainers]" ?w]
  from t ev f e have a: "votes_preview ?l = None \<and> votes ?post = None" by auto
  from t run before have "votes_fallback_taken (post_pages ?w (url ?saved)) \<longrightarrow> votes ?saved = None"
    by blast
  with f have b: "votes ?saved = None" by simp
  from ev f e run before a b show ?thesis by (simp add: Let_def)
qed

section \<open>Properties of the item extractor\<close>

text \<open>
  C4 (score strategies), as the code has it. The three strategies are tried in order and
  a strategy hands over to the next only when its element is not found: the first
  strategy whose element is found decides the score, also when what it reads is empty or
  \<^verbatim>\<open>None\<close> (its stripped text when that is not empty, its attribute \<^verbatim>\<open>number\<close> otherwise;
  the third strategy gives the attribute \<^verbatim>\<open>score\<close>). When no element is found the score
  is \<^verbatim>\<open>None\<close>. The pre-observed score is the result exactly when the handler of the
  block is reached, that is when the first or the second strategy raises something other
  than \<^verbatim>\<open>NoSuchElementException\<close>; otherwise it has no influence.
\<close>

theorem score_strategy_order:
  "(info_row_read pg = Inr fp \<longrightarrow> extract_votes pg pv = faceplate_count fp)
   \<and> (info_row_read pg = Inl NoSuchElementException \<and> post_faceplate_read pg = Inr fp
        \<longrightarrow> extract_votes pg pv = faceplate_count fp)
   \<and> (info_row_read pg = Inl NoSuchElementException
        \<and> post_faceplate_read pg = Inl NoSuchElementException
        \<longrightarrow> extract_votes pg pv = (case score_attribute_read pg of Inr score \<Rightarrow> score | Inl e \<Rightarrow> None))
   \<and> (votes_fallback_taken pg \<longrightarrow> extract_votes pg pv = pv)
   \<and> (\<not> votes_fallback_taken pg \<longrightarrow> extract_votes pg pv = extract_votes pg None)
   \<and> (strip (fp_text fp) \<noteq> [] \<longrightarrow> faceplate_count fp = Some (strip (fp_text fp)))
   \<and> (strip (fp_text fp) = [] \<longrightarrow> faceplate_count fp = fp_number fp)
   \<and> (extract_post_data gh pg u pv = Some post \<longrightarrow> votes post = extract_votes pg pv)"
proof -
  have a: "info_row_read pg = Inr fp \<longrightarrow> extract_votes pg pv = faceplate_count fp"
    by (simp add: extract_votes_def)
  have b: "info_row_read pg = Inl NoSuchElementException \<and> post_faceplate_read pg = Inr fp
        \<longrightarrow> extract_votes pg pv = faceplate_count fp"
    by (simp add: extract_votes_def)
  have c: "info_row_read pg = Inl NoSuchElementException
        \<and> post_faceplate_read pg = Inl NoSuchElementException
        \<longrightarrow> extract_votes pg pv = (case score_attribute_read pg of Inr score \<Rightarrow> score | Inl e \<Rightarrow> None)"
    by (simp add: extract_votes_def)
  have d: "votes_fallback_taken pg \<longrightarrow> extract_votes pg pv = pv"
    using fallback_gives_preview by blast
  have e: "\<not> votes_fallback_taken pg \<longrightarrow> extract_votes pg pv = extract_votes pg None"
    by (auto simp: votes_fallback_taken_def extract_votes_def split: sum.splits if_splits)
  have f: "strip (fp_text fp) \<noteq> [] \<longrightarrow> faceplate_count fp = Some (strip (fp_text fp))"
    by (simp add: faceplate_count_def Let_def)
  have g: "strip (fp_text fp) = [] \<longrightarrow> faceplate_count fp = fp_number fp"
    by (simp add: faceplate_count_def Let_def)
  have h: "extract_post_data gh pg u pv = Some post \<longrightarrow> votes post = extract_votes pg pv"
    using extract_post_data_votes by blast
  from a b c d e f g h show ?thesis by blast
qed

theorem score_strategy_order_witness:
  "(let fp = \<lparr>fp_text = '' 15 '', fp_number = Some ''15''\<rparr>;
        pg = \<lparr>page_load = None, clock = ''t'', title_read = Inr ''T'',
               text_body_read = Inr [''p''],
               info_row_read = Inl NoSuchElementException,
               post_faceplate_read = Inr fp,
               score_attribute_read = Inr (Some ''99''),
               comment_scrolls = None, comment_tree_read = Inr [], tab_close = None\<rparr>
    in info_row_read pg = Inl NoSuchElementException \<and> post_faceplate_read pg = Inr fp
       \<and> strip (fp_text fp) \<noteq> []
       \<and> \<not> votes_fallback_taken pg
       \<and> extract_votes pg (Some ''7'') = Some ''15''
       \<and> faceplate_count fp = Some ''15'')"
proof -
  let ?fp = "\<lparr>fp_text = '' 15 '', fp_number = Some ''15''\<rparr>"
  let ?pg = "\<lparr>page_load = None, clock = ''t'', title_read = Inr ''T'',
               text_body_read = Inr [''p''],
               info_row_read = Inl NoSuchElementException,
               post_faceplate_read = Inr ?fp,
               score_attribute_read = Inr (Some ''99''),
               comment_scrolls = None, comment_tree_read = Inr [], tab_close = None\<rparr>"
  have s: "strip (fp_text ?fp) = ''15''" by (simp add: strip_def py_isspace_def)
  have nf: "\<not> votes_fallback_taken ?pg" by (simp add: votes_fallback_taken_def)
  from score_strategy_order [of ?pg ?fp "Some ''7''"] s
  have "extract_votes ?pg (Some ''7'') = Some ''15'' \<and> faceplate_count ?fp = Some ''15''"
    by simp
  with s nf show ?thesis by (simp add: Let_def)
qed

text \<open>
  The claim as the specification words it fails twice. A first strategy that finds its
  element but reads nothing wins although the later strategies would read 42; and when
  no strategy finds its element the result is \<^verbatim>\<open>None\<close> although a pre-observed score
  was supplied.
\<close>

theorem score_first_nonempty_counterexample:
  "extract_votes
     \<lparr>page_load = None, clock = ''t'', title_read = Inr ''T'', text_body_read = Inr [''p''],
      info_row_read = Inr \<lparr>fp_text = '''', fp_number = None\<rparr>,
      post_faceplate_read = Inr \<lparr>fp_text = ''42'', fp_number = Some ''42''\<rparr>,
      score_attribute_read = Inr (Some ''42''),
      comment_scrolls = None, comment_tree_read = Inr [], tab_close = None\<rparr>
     None = None
   \<and> extract_votes
     \<lparr>page_load = None, clock = ''t'', title_read = Inr ''T'', text_body_read = Inr [''p''],
      info_row_read = Inl NoSuchElementException,
      post_faceplate_read = Inl NoSuchElementException,
      score_attribute_read = Inl NoSuchElementException,
      comment_scrolls = None, comment_tree_read = Inr [], tab_close = None\<rparr>
     (Some ''7'') = None"
  by (simp add: extract_votes_def faceplate_count_def strip_def Let_def)

lemma extract_post_data_fails_iff:
  "extract_post_data gh pg u pv = None \<longleftrightarrow> page_fault pg"
  by (auto simp: extract_post_data_def page_fault_def raises_other_def Let_def
           split: option.splits sum.splits)

lemma extract_post_data_fields:
  "extract_post_data gh pg u pv = Some post \<Longrightarrow>
     url post = u \<and> hash post = gh u \<and> scraped_at post = clock pg \<and> item_id post = None
     \<and> title post = (case title_read pg of Inr t \<Rightarrow> Some (strip t) | Inl e \<Rightarrow> None)
     \<and> description post
          = (case text_body_read pg of Inr ps \<Rightarrow> Some (paragraph_text ps) | Inl e \<Rightarrow> None)
     \<and> comments post = extract_comments (comment_tree_read pg)"
  by (auto simp: extract_post_data_def Let_def split: option.splits sum.splits if_splits)

text \<open>
  C7 (graceful field absence), as the code has it. The call returns \<^verbatim>\<open>None\<close> exactly
  when a step raises that no inner handler absorbs: opening or loading the page, reading
  the title or the body with anything other than \<^verbatim>\<open>NoSuchElementException\<close>, a
  comment-loading scroll, or closing the tab. Otherwise it returns a record with the
  link, its fingerprint and the timestamp, a title and a body that are \<^verbatim>\<open>None\<close> when
  their element is absent, the score of the score block (\<^verbatim>\<open>None\<close> when no strategy finds
  its element), and the comment list.
\<close>

theorem extract_post_data_tolerates_absence:
  "(extract_post_data gh pg u pv = None \<longleftrightarrow> page_fault pg)
   \<and> (extract_post_data gh pg u pv = Some post \<longrightarrow>
         url post = u \<and> hash post = gh u \<and> scraped_at post = clock pg
         \<and> title post = (case title_read pg of Inr t \<Rightarrow> Some (strip t) | Inl e \<Rightarrow> None)
         \<and> description post
              = (case text_body_read pg of Inr ps \<Rightarrow> Some (paragraph_text ps) | Inl e \<Rightarrow> None)
         \<and> votes post = extract_votes pg pv
         \<and> comments post = extract_comments (comment_tree_read pg))
   \<and> (info_row_read pg = Inl NoSuchElementException
        \<and> post_faceplate_read pg = Inl NoSuchElementException
        \<and> score_attribute_read pg = Inl e
        \<longrightarrow> extract_votes pg pv = None)"
proof -
  have a: "extract_post_data gh pg u pv = None \<longleftrightarrow> page_fault pg"
    by (rule extract_post_data_fails_iff)
  have b: "extract_post_data gh pg u pv = Some post \<longrightarrow>
         url post = u \<and> hash post = gh u \<and> scraped_at post = clock pg
         \<and> title post = (case title_read pg of Inr t \<Rightarrow> Some (strip t) | Inl e \<Rightarrow> None)
         \<and> description post
              = (case text_body_read pg of Inr ps \<Rightarrow> Some (paragraph_text ps) | Inl e \<Rightarrow> None)
         \<and> votes post = extract_votes pg pv
         \<and> comments post = extract_comments (comment_tree_read pg)"
    using extract_post_data_fields [of gh pg u pv post] extract_post_data_votes [of gh pg u pv post]
    by blast
  have c: "info_row_read pg = Inl NoSuchElementException
        \<and> post_faceplate_read pg = Inl NoSuchElementException
        \<and> score_attribute_read pg = Inl e
        \<longrightarrow> extract_votes pg pv = None"
    by (simp add: extract_votes_def)
  from a b c show ?thesis by blast
qed

theorem extract_post_data_tolerates_absence_witness:
  "(let pg = \<lparr>page_load = None, clock = ''t'', title_read = Inr '' A title '',
               text_body_read = Inl NoSuchElementException,
               info_row_read = Inl NoSuchElementException,
               post_faceplate_read = Inl NoSuchElementException,
               score_attribute_read = Inl NoSuchElementException,
               comment_scrolls = None, comment_tree_read = Inl NoSuchElementException,
               tab_close = None\<rparr>
    in \<not> page_fault pg
       \<and> extract_post_data (\<lambda>s. s) pg ''u'' None
            = Some \<lparr>url = ''u'', hash = ''u'', scraped_at = ''t'', title = Some ''A title'',
                     description = None, votes = None, comments = [], item_id = None\<rparr>)"
proof -
  let ?pg = "\<lparr>page_load = None, clock = ''t'', title_read = Inr '' A title '',
               text_body_read = Inl NoSuchElementException,
               info_row_read = Inl NoSuchElementException,
               post_faceplate_read = Inl NoSuchElementException,
               score_attribute_read = Inl NoSuchElementException,
               comment_scrolls = None, comment_tree_read = Inl NoSuchElementException,
               tab_close = None\<rparr>"
  let ?post = "\<lparr>url = ''u'', hash = ''u'', scraped_at = ''t'', title = Some ''A title'',
                     description = None, votes = None, comments = [], item_id = None\<rparr>"
  have nf: "\<not> page_fault ?pg" by (simp add: page_fault_def raises_other_def)
  have st: "strip '' A title '' = ''A title''" by (simp add: strip_def py_isspace_def)
  from extract_post_data_tolerates_absence [of "\<lambda>s. s" ?pg "''u''" None] nf
  obtain post where p: "extract_post_data (\<lambda>s. s) ?pg ''u'' None = Some post" by auto
  from extract_post_data_tolerates_absence
         [of "\<lambda>s. s" ?pg "''u''" None post NoSuchElementException] p
       extract_post_data_fields [OF p] st
  have "post = ?post" by (simp add: extract_comments_def)
  with p nf show ?thesis by (simp add: Let_def)
qed

text \<open>
  A page that loads and whose title, body and score are all read, but whose tab fails to
  close, makes the call return \<^verbatim>\<open>None\<close>: failure is not confined to faults that keep
  field extraction from being attempted.
\<close>

theorem extract_post_data_failure_counterexample:
  "(let pg = \<lparr>page_load = None, clock = ''t'', title_read = Inr ''A title'',
               text_body_read = Inr [''body''],
               info_row_read = Inr \<lparr>fp_text = ''12'', fp_number = Some ''12''\<rparr>,
               post_faceplate_read = Inr \<lparr>fp_text = ''12'', fp_number = Some ''12''\<rparr>,
               score_attribute_read = Inr (Some ''12''),
               comment_scrolls = None, comment_tree_read = Inr [],
               tab_close = Some WebDriverException\<rparr>
    in page_load pg = None \<and> title_read pg = Inr ''A title''
       \<and> text_body_read pg = Inr [''body'']
       \<and> extract_votes pg None = Some ''12''
       \<and> extract_post_data (\<lambda>s. s) pg ''u'' None = None)"
  by (simp add: Let_def extract_post_data_def extract_votes_def faceplate_count_def strip_def
        py_isspace_def)

section \<open>Properties of the tree extractor\<close>

lemma extract_each_map_filter:
  "extract_each elements = List.map_filter extract_single_comment elements"
  by (induction elements) (auto simp: List.map_filter_simps split: option.splits)

lemma extract_each_append:
  "extract_each (xs @ ys) = extract_each xs @ extract_each ys"
  by (induction xs) (auto split: option.splits)

lemma extract_single_comment_None:
  "extract_single_comment element = None \<longleftrightarrow> node_raises element"
  by (cases element)
     (auto simp: node_raises_def raises_other_def comment_text_def comment_votes_def Let_def
           split: sum.splits if_splits)

lemma extract_single_comment_replies:
  "extract_single_comment element = Some c \<Longrightarrow>
     c_replies c = (case nested_read element of Inl e \<Rightarrow> [] | Inr ns \<Rightarrow> extract_each ns)"
  by (cases element) (auto split: sum.splits)

text \<open>
  C6 (reply trees). When the comment tree cannot be located or listed, the result is the
  empty list. A list of elements is extracted element by element: an element whose
  extraction raises contributes nothing, subtree included, and the elements before and
  after it are extracted all the same. The extraction of an element returns \<^verbatim>\<open>None\<close>
  exactly when reading its body or its votes raises something other than
  \<^verbatim>\<open>NoSuchElementException\<close>; every node that is returned has a list of replies, which is
  empty when its children cannot be listed.
\<close>

theorem comment_tree_extraction:
  "extract_comments (Inl e) = []
   \<and> extract_comments (Inr elements) = extract_each elements
   \<and> extract_each elements = List.map_filter extract_single_comment elements
   \<and> extract_each (before @ element # after)
       = extract_each before
         @ (case extract_single_comment element of None \<Rightarrow> [] | Some c \<Rightarrow> [c])
         @ extract_each after
   \<and> (extract_single_comment element = None \<longleftrightarrow> node_raises element)
   \<and> (extract_single_comment element = Some c \<longrightarrow>
         c_replies c = (case nested_read element of Inl e \<Rightarrow> [] | Inr ns \<Rightarrow> extract_each ns))"
proof -
  have a: "extract_comments (Inl e) = []" by (simp add: extract_comments_def)
  have b: "extract_comments (Inr elements) = extract_each elements"
    by (simp add: extract_comments_def)
  have c: "extract_each (before @ element # after)
       = extract_each before
         @ (case extract_single_comment element of None \<Rightarrow> [] | Some c \<Rightarrow> [c])
         @ extract_each after"
    by (simp add: extract_each_append split: option.splits)
  from a b c extract_each_map_filter [of elements] extract_single_comment_None [of element]
    extract_single_comment_replies [of element c]
  show ?thesis by blast
qed

theorem comment_tree_extraction_witness:
  "(let leaf = (\<lambda>t. CommentElement (Inr ([t], t)) (Inr (Some ''1'', ''1'')) (Inr []));
        broken = CommentElement (Inl StaleElementReferenceException) (Inr (None, ''3''))
                   (Inr [leaf ''lost'']);
        unlisted = CommentElement (Inr ([], '' raw '')) (Inl NoSuchElementException)
                     (Inl WebDriverException);
        root = CommentElement (Inr ([''r''], ''r'')) (Inr (None, '' 5 ''))
                 (Inr [leaf ''x'', broken, leaf ''y''])
    in node_raises broken
       \<and> extract_single_comment broken = None
       \<and> extract_single_comment unlisted = Some (Comment (Some ''raw'') None [])
       \<and> extract_comments (Inr [root, broken, unlisted])
            = [Comment (Some ''r'') (Some ''5'')
                 [Comment (Some ''x'') (Some ''1'') [], Comment (Some ''y'') (Some ''1'') []],
               Comment (Some ''raw'') None []]
       \<and> extract_comments (Inl WebDriverException) = [])"
proof -
  let ?leaf = "\<lambda>t. CommentElement (Inr ([t], t)) (Inr (Some ''1'', ''1'')) (Inr [])"
  let ?broken = "CommentElement (Inl StaleElementReferenceException) (Inr (None, ''3''))
                   (Inr [?leaf ''lost''])"
  let ?unlisted = "CommentElement (Inr ([], '' raw '')) (Inl NoSuchElementException)
                     (Inl WebDriverException)"
  let ?root = "CommentElement (Inr ([''r''], ''r'')) (Inr (None, '' 5 ''))
                 (Inr [?leaf ''x'', ?broken, ?leaf ''y''])"
  have r: "node_raises ?broken" by (simp add: node_raises_def raises_other_def)
  from comment_tree_extraction [of WebDriverException "[?root, ?broken, ?unlisted]" "[]" ?broken "[]"]
    r
  have n: "extract_single_comment ?broken = None"
    and e: "extract_comments (Inl WebDriverException) = []" by simp_all
  have u: "extract_single_comment ?unlisted = Some (Comment (Some ''raw'') None [])"
    by (simp add: comment_text_def comment_votes_def paragraph_text_def strip_def py_isspace_def)
  have t: "extract_comments (Inr [?root, ?broken, ?unlisted])
            = [Comment (Some ''r'') (Some ''5'')
                 [Comment (Some ''x'') (Some ''1'') [], Comment (Some ''y'') (Some ''1'') []],
               Comment (Some ''raw'') None []]"
    by (simp add: extract_comments_def comment_text_def comment_votes_def paragraph_text_def
          strip_def py_isspace_def)
  from r n e u t show ?thesis by (simp add: Let_def)
qed

section \<open>Properties of the command line\<close>

lemma fetch_posts_raises_iff:
  "isl (fst (fetch_posts gh w dir count)) \<longleftrightarrow> driver_start w = None \<and> driver_quit w \<noteq> None"
  by (auto simp: fetch_posts_def setup_driver_def split: prod.splits option.splits)

lemma fetch_main_exit:
  "fst (fetch_main gh w dir args)
     = (case args of
          ArgumentError \<Rightarrow> 2
        | Arguments u count \<Rightarrow>
            if count \<le> 0 then 1
            else if fetcher_init w \<noteq> None then 1
            else if driver_start w = None \<and> driver_quit w \<noteq> None then 1 else 0)"
proof (cases args)
  case ArgumentError
  then show ?thesis by (simp add: fetch_main_def)
next
  case (Arguments u count)
  obtain r dir' where f: "fetch_posts gh w dir count = (r, dir')"
    by (cases "fetch_posts gh w dir count")
  from fetch_posts_raises_iff [of gh w dir count] f
  have "isl r \<longleftrightarrow> driver_start w = None \<and> driver_quit w \<noteq> None" by simp
  with Arguments f show ?thesis by (cases r; cases "fetcher_init w") (auto simp: fetch_main_def)
qed

lemma fetch_main_start_failure:
  "0 < count \<Longrightarrow> fetcher_init w = None \<Longrightarrow> driver_start w = Some e
     \<Longrightarrow> fetch_main gh w dir (Arguments u count) = (0, dir)"
  by (simp add: fetch_main_def fetch_posts_def fetch_posts_body_def setup_driver_def)

lemma fetch_main_maximize_failure:
  "0 < count \<Longrightarrow> fetcher_init w = None \<Longrightarrow> driver_start w = None \<Longrightarrow> window_maximize w = Some e
     \<Longrightarrow> fetch_main gh w dir (Arguments u count) = (if driver_quit w = None then 0 else 1, dir)"
  by (auto simp: fetch_main_def fetch_posts_def fetch_posts_body_def setup_driver_def
           split: option.splits)

lemma merge_main_zero_iff:
  "merge_main py_str dumps csv_fault (Some data_dir) = 0 \<longleftrightarrow>
     (\<exists>n m. merge_data py_str dumps data_dir \<lparr>records = [], merger_auto_id = 1\<rparr> = Inr (n, m)
            \<and> n \<noteq> 0 \<and> records m \<noteq> [] \<and> csv_fault = None)"
  by (auto simp: merge_main_def run_def write_csv_def split: sum.splits prod.splits option.splits if_splits)

text \<open>
  C5 (exit status), as the code has it. \<^verbatim>\<open>fetch.py\<close> exits with 2 when \<^verbatim>\<open>argparse\<close>
  rejects the command line and with 1, untouched scope, when the target count is zero or
  negative. For a positive count it exits with 1 when the fetcher cannot be constructed,
  and otherwise its status is 0 whatever happens inside the run: a browser that cannot
  be created is reported and the status is 0 with the scope untouched, and the status
  does not depend on the post pages, so failed extractions do not change it; only an
  exception of \<^verbatim>\<open>driver.quit()\<close> in the \<^verbatim>\<open>finally\<close> block, which nothing catches,
  gives 1, and that call is made whenever the browser was created: also when
  \<^verbatim>\<open>maximize_window\<close> raised in \<^verbatim>\<open>setup_driver\<close>, where the scope stays untouched and
  the status is 0 unless \<^verbatim>\<open>driver.quit()\<close> raises too. \<^verbatim>\<open>merge.py\<close> exits with 2 on a rejected command line, and otherwise
  with 0 exactly when records were merged and the output was written, else with 1: in
  particular when the data directory is missing or is a file, or the output cannot be
  written.
\<close>

theorem cli_exit_codes:
  "fst (fetch_main gh w dir ArgumentError) = 2
   \<and> (count \<le> 0 \<longrightarrow> fetch_main gh w dir (Arguments u count) = (1, dir))
   \<and> (0 < count \<longrightarrow>
         fst (fetch_main gh w dir (Arguments u count))
           = (if fetcher_init w \<noteq> None \<or> driver_start w = None \<and> driver_quit w \<noteq> None
              then 1 else 0))
   \<and> (0 < count \<and> fetcher_init w = None \<and> driver_start w = Some e \<longrightarrow>
         fetch_main gh w dir (Arguments u count) = (0, dir))
   \<and> (0 < count \<and> fetcher_init w = None \<and> driver_start w = None \<and> window_maximize w = Some e \<longrightarrow>
         fetch_main gh w dir (Arguments u count) = (if driver_quit w = None then 0 else 1, dir))
   \<and> fst (fetch_main gh (w\<lparr>post_pages := other_pages\<rparr>) dir args) = fst (fetch_main gh w dir args)
   \<and> merge_main py_str dumps csv_fault None = 2
   \<and> merge_main py_str dumps csv_fault (Some None) = 1
   \<and> merge_main py_str dumps csv_fault (Some (Some (File content))) = 1
   \<and> (csv_fault \<noteq> None \<longrightarrow> merge_main py_str dumps csv_fault (Some data_dir) = 1)
   \<and> (merge_main py_str dumps csv_fault (Some data_dir) = 0 \<longleftrightarrow>
        (\<exists>n m. merge_data py_str dumps data_dir \<lparr>records = [], merger_auto_id = 1\<rparr> = Inr (n, m)
               \<and> n \<noteq> 0 \<and> records m \<noteq> [] \<and> csv_fault = None))
   \<and> merge_main py_str dumps csv_fault (Some data_dir) \<in> {0, 1}"
proof -
  have a: "fst (fetch_main gh w dir ArgumentError) = 2" by (simp add: fetch_main_def)
  have b: "count \<le> 0 \<longrightarrow> fetch_main gh w dir (Arguments u count) = (1, dir)"
    by (simp add: fetch_main_def)
  have c: "0 < count \<longrightarrow>
         fst (fetch_main gh w dir (Arguments u count))
           = (if fetcher_init w \<noteq> None \<or> driver_start w = None \<and> driver_quit w \<noteq> None
              then 1 else 0)"
    by (auto simp: fetch_main_exit)
  have d: "0 < count \<and> fetcher_init w = None \<and> driver_start w = Some e \<longrightarrow>
         fetch_main gh w dir (Arguments u count) = (0, dir)"
    using fetch_main_start_failure by blast
  have d2: "0 < count \<and> fetcher_init w = None \<and> driver_start w = None \<and> window_maximize w = Some e \<longrightarrow>
         fetch_main gh w dir (Arguments u count) = (if driver_quit w = None then 0 else 1, dir)"
    using fetch_main_maximize_failure by blast
  have e: "fst (fetch_main gh (w\<lparr>post_pages := other_pages\<rparr>) dir args) = fst (fetch_main gh w dir args)"
    unfolding fetch_main_exit by (cases args) auto
  have f: "merge_main py_str dumps csv_fault None = 2" by (simp add: merge_main_def)
  have g: "merge_main py_str dumps csv_fault (Some None) = 1"
    by (simp add: merge_main_def run_def merge_data_def)
  have h: "merge_main py_str dumps csv_fault (Some (Some (File content))) = 1"
    by (simp add: merge_main_def run_def merge_data_def)
  have i: "csv_fault \<noteq> None \<longrightarrow> merge_main py_str dumps csv_fault (Some data_dir) = 1"
    by (auto simp: merge_main_def run_def write_csv_def
             split: sum.splits prod.splits option.splits if_splits)
  have k: "merge_main py_str dumps csv_fault (Some data_dir) \<in> {0, 1}"
    by (auto simp: merge_main_def split: sum.splits prod.splits)
  from a b c d d2 e f g h i k merge_main_zero_iff [of py_str dumps csv_fault data_dir]
  show ?thesis by blast
qed

theorem cli_exit_codes_witness:
  "(let gh = (\<lambda>s. s);
        dir = \<lparr>item_files = (\<lambda>i. Absent), id_tracker_file = Absent, hash_tracker_file = Absent\<rparr>;
        bad_page = \<lparr>page_load = Some WebDriverException, clock = ''t'', title_read = Inr ''T'',
               text_body_read = Inr [''p''], info_row_read = Inl NoSuchElementException,
               post_faceplate_read = Inl NoSuchElementException,
               score_attribute_read = Inr (Some ''1''),
               comment_scrolls = None, comment_tree_read = Inr [], tab_close = None\<rparr>;
        w = \<lparr>fetcher_init = None, driver_start = None, window_maximize = None, listing_load = None,
              listing_cycles = (\<lambda>k. \<lparr>post_containers = Inr [Inr (Some ''a'')],
                                       scroll_heights = Inr (100, 100)\<rparr>),
              post_pages = (\<lambda>u. bad_page),
              disk_faults = (\<lambda>i. \<lparr>item_write = WriteOk, id_write = WriteOk, hash_write = WriteOk\<rparr>),
              driver_quit = None\<rparr>;
        w' = w\<lparr>window_maximize := Some WebDriverException, driver_quit := Some OSError\<rparr>
    in (0::int) < 1
       \<and> fst (fetch_posts_body gh w dir 1) = ScrapingComplete 0 1
       \<and> fst (fetch_main gh w dir (Arguments ''u'' 1)) = 0
       \<and> fetcher_init w' = None \<and> driver_start w' = None
       \<and> window_maximize w' = Some WebDriverException
       \<and> fetch_main gh w' dir (Arguments ''u'' 1) = (1, dir)
       \<and> (0::int) \<le> 0
       \<and> fetch_main gh w dir (Arguments ''u'' 0) = (1, dir)
       \<and> Some OSError \<noteq> None
       \<and> merge_main (\<lambda>v. []) (\<lambda>v. Inr []) (Some OSError)
            (Some (Some (Dir [(''r_python'', Dir [(''1.json'', File (Inr (JDict [])))])]))) = 1)"
proof -
  let ?gh = "\<lambda>s::string. s"
  let ?dir = "\<lparr>item_files = (\<lambda>i. Absent), id_tracker_file = Absent, hash_tracker_file = Absent\<rparr>"
  let ?bad = "\<lparr>page_load = Some WebDriverException, clock = ''t'', title_read = Inr ''T'',
               text_body_read = Inr [''p''], info_row_read = Inl NoSuchElementException,
               post_faceplate_read = Inl NoSuchElementException,
               score_attribute_read = Inr (Some ''1''),
               comment_scrolls = None, comment_tree_read = Inr [], tab_close = None\<rparr>"
  let ?w = "\<lparr>fetcher_init = None, driver_start = None, window_maximize = None, listing_load = None,
              listing_cycles = (\<lambda>k. \<lparr>post_containers = Inr [Inr (Some ''a'')],
                                       scroll_heights = Inr (100, 100)\<rparr>),
              post_pages = (\<lambda>u. ?bad),
              disk_faults = (\<lambda>i. \<lparr>item_write = WriteOk, id_write = WriteOk, hash_write = WriteOk\<rparr>),
              driver_quit = None\<rparr>"
  let ?data = "Some (Dir [(''r_python'', Dir [(''1.json'', File (Inr (JDict [])))])])"
  have body: "fst (fetch_posts_body ?gh ?w ?dir 1) = ScrapingComplete 0 1"
    by (simp add: fetch_posts_body_def setup_driver_def collect_post_links_def setup_community_dir_def
          load_next_id_def load_collected_hashes_def discovery_loop_unfold loop_guard_def
          cycle_step_def max_scroll_attempts_def Let_def py_take_def extract_post_data_def)
  from cli_exit_codes [of ?gh ?w ?dir 1 "''u''"]
  have run: "fst (fetch_main ?gh ?w ?dir (Arguments ''u'' 1)) = 0" by simp
  from cli_exit_codes [of ?gh ?w ?dir 0 "''u''"]
  have usage: "fetch_main ?gh ?w ?dir (Arguments ''u'' 0) = (1, ?dir)" by simp
  let ?w' = "?w\<lparr>window_maximize := Some WebDriverException, driver_quit := Some OSError\<rparr>"
  from cli_exit_codes [of ?gh ?w' ?dir 1 "''u''" WebDriverException]
  have maxi: "fetch_main ?gh ?w' ?dir (Arguments ''u'' 1) = (1, ?dir)" by simp
  from cli_exit_codes [of _ _ _ _ _ _ _ _ "\<lambda>v. []" "\<lambda>v. Inr []" "Some OSError" _ ?data]
  have csv: "merge_main (\<lambda>v. []) (\<lambda>v. Inr []) (Some OSError) (Some ?data) = 1" by simp
  from body run usage maxi csv show ?thesis by (simp add: Let_def)
qed

text \<open>
  With a browser that cannot be created, \<^verbatim>\<open>fetch_posts\<close> reports the exception and
  \<^verbatim>\<open>main\<close> returns 0: the status is not non-zero on this setup failure. The same holds
  when the browser is created and \<^verbatim>\<open>maximize_window\<close> raises, the browser then being
  closed without a fault.
\<close>

theorem fetch_exit_code_counterexample:
  "(let dir = \<lparr>item_files = (\<lambda>i. Absent), id_tracker_file = Absent, hash_tracker_file = Absent\<rparr>;
        pg = \<lparr>page_load = None, clock = ''t'', title_read = Inr ''T'',
               text_body_read = Inr [''p''], info_row_read = Inl NoSuchElementException,
               post_faceplate_read = Inl NoSuchElementException,
               score_attribute_read = Inr (Some ''1''),
               comment_scrolls = None, comment_tree_read = Inr [], tab_close = None\<rparr>;
        w = \<lparr>fetcher_init = None, driver_start = Some WebDriverException,
              window_maximize = None, listing_load = None,
              listing_cycles = (\<lambda>k. \<lparr>post_containers = Inr [Inr (Some ''a'')],
                                       scroll_heights = Inr (100, 100)\<rparr>),
              post_pages = (\<lambda>u. pg),
              disk_faults = (\<lambda>i. \<lparr>item_write = WriteOk, id_write = WriteOk, hash_write = WriteOk\<rparr>),
              driver_quit = None\<rparr>;
        w' = w\<lparr>driver_start := None, window_maximize := Some WebDriverException\<rparr>
    in driver_start w = Some WebDriverException
       \<and> fetch_posts_body (\<lambda>s. s) w dir 3 = (ErrorReported WebDriverException, dir)
       \<and> fst (fetch_main (\<lambda>s. s) w dir (Arguments ''https://www.reddit.com/r/python/top/'' 3)) = 0
       \<and> setup_driver w' = (Inl WebDriverException, True)
       \<and> fetch_posts_body (\<lambda>s. s) w' dir 3 = (ErrorReported WebDriverException, dir)
       \<and> fst (fetch_main (\<lambda>s. s) w' dir (Arguments ''https://www.reddit.com/r/python/top/'' 3)) = 0)"
  by (simp add: Let_def fetch_main_def fetch_posts_def fetch_posts_body_def setup_driver_def)

section \<open>Properties of the flattener\<close>

lemma handle_null_value_other:
  "v \<noteq> JNull \<Longrightarrow> \<forall>s. v \<noteq> JStr s \<Longrightarrow> v \<noteq> JList [] \<Longrightarrow> v \<noteq> JDict []
     \<Longrightarrow> handle_null_value py_str v d = py_str v"
  by (cases v) (simp_all add: handle_null_value_def)

lemma comments_to_json_string_cases:
  "(\<not> truthy c \<longrightarrow> comments_to_json_string dumps c = Inr ''[]'')
   \<and> (truthy c \<and> py_len c = Inr n \<longrightarrow>
         comments_to_json_string dumps c = Inr (case dumps c of Inl e \<Rightarrow> ''[]'' | Inr t \<Rightarrow> t))
   \<and> (truthy c \<and> py_len c = Inl e \<longrightarrow> comments_to_json_string dumps c = Inl e)"
  by (cases c) (auto simp: comments_to_json_string_def split: sum.splits)

lemma process_json_file_row:
  "process_json_file py_str dumps content cat b = (Some r, b')
     \<Longrightarrow> \<exists>kvs. content = Inr (JDict kvs) \<and> b' = b + 1"
  by (auto simp: process_json_file_def Let_def split: sum.splits json.splits)

lemma scan_files_rows:
  assumes "\<forall>r \<in> set (records m). \<exists>kvs c b.
             process_json_file py_str dumps (Inr (JDict kvs)) c b = (Some r, b + 1)"
  shows "\<forall>r \<in> set (records (snd (scan_files py_str dumps cat files m k))). \<exists>kvs c b.
             process_json_file py_str dumps (Inr (JDict kvs)) c b = (Some r, b + 1)"
  using assms
proof (induction files arbitrary: m k)
  case Nil
  then show ?case by simp
next
  case (Cons f files)
  obtain name entry where f: "f = (name, entry)" by (cases f)
  let ?content = "case entry of File content \<Rightarrow> content | Dir entries \<Rightarrow> Inl OSError"
  obtain row a where p: "process_json_file py_str dumps ?content cat (merger_auto_id m) = (row, a)"
    by (cases "process_json_file py_str dumps ?content cat (merger_auto_id m)")
  show ?case
  proof (cases row)
    case None
    have "\<forall>r \<in> set (records (m\<lparr>merger_auto_id := a\<rparr>)). \<exists>kvs c b.
             process_json_file py_str dumps (Inr (JDict kvs)) c b = (Some r, b + 1)"
      using Cons.prems by simp
    from Cons.IH [OF this] f p None show ?thesis by simp
  next
    case (Some r0)
    from process_json_file_row [OF p [unfolded Some]] obtain kvs where
      "?content = Inr (JDict kvs)" "a = merger_auto_id m + 1" by blast
    with p Some
    have "process_json_file py_str dumps (Inr (JDict kvs)) cat (merger_auto_id m)
            = (Some r0, merger_auto_id m + 1)" by simp
    then have "\<exists>kvs c b. process_json_file py_str dumps (Inr (JDict kvs)) c b = (Some r0, b + 1)"
      by blast
    with Cons.prems
    have "\<forall>r \<in> set (records (m\<lparr>records := records m @ [r0], merger_auto_id := a\<rparr>)). \<exists>kvs c b.
             process_json_file py_str dumps (Inr (JDict kvs)) c b = (Some r, b + 1)"
      by auto
    from Cons.IH [OF this] f p Some show ?thesis by simp
  qed
qed

lemma scan_category_folder_rows:
  assumes "\<forall>r \<in> set (records m). \<exists>kvs c b.
             process_json_file py_str dumps (Inr (JDict kvs)) c b = (Some r, b + 1)"
  shows "\<forall>r \<in> set (records (snd (scan_category_folder py_str dumps folder cat m))). \<exists>kvs c b.
             process_json_file py_str dumps (Inr (JDict kvs)) c b = (Some r, b + 1)"
proof (cases folder)
  case (File content)
  with assms show ?thesis by (simp add: scan_category_folder_def)
next
  case (Dir entries)
  then show ?thesis
    unfolding scan_category_folder_def Let_def by simp (rule scan_files_rows [OF assms])
qed

lemma scan_categories_rows:
  assumes "\<forall>r \<in> set (records m). \<exists>kvs c b.
             process_json_file py_str dumps (Inr (JDict kvs)) c b = (Some r, b + 1)"
  shows "\<forall>r \<in> set (records (snd (scan_categories py_str dumps folders m k))). \<exists>kvs c b.
             process_json_file py_str dumps (Inr (JDict kvs)) c b = (Some r, b + 1)"
  using assms
proof (induction folders arbitrary: m k)
  case Nil
  then show ?case by simp
next
  case (Cons f folders)
  obtain name folder where f: "f = (name, folder)" by (cases f)
  obtain n m1 where c: "scan_category_folder py_str dumps folder name m = (n, m1)"
    by (cases "scan_category_folder py_str dumps folder name m")
  from scan_category_folder_rows [OF Cons.prems, of folder name] c
  have "\<forall>r \<in> set (records m1). \<exists>kvs c b.
             process_json_file py_str dumps (Inr (JDict kvs)) c b = (Some r, b + 1)" by simp
  from Cons.IH [OF this] f c show ?case by simp
qed

lemma scan_communities_rows:
  assumes "\<forall>r \<in> set (records m). \<exists>kvs c b.
             process_json_file py_str dumps (Inr (JDict kvs)) c b = (Some r, b + 1)"
  shows "\<forall>r \<in> set (records (snd (scan_communities py_str dumps folders m k))). \<exists>kvs c b.
             process_json_file py_str dumps (Inr (JDict kvs)) c b = (Some r, b + 1)"
  using assms
proof (induction folders arbitrary: m k)
  case Nil
  then show ?case by simp
next
  case (Cons f folders)
  obtain name folder where f: "f = (name, folder)" by (cases f)
  let ?cats = "case folder of Dir entries \<Rightarrow> filter (\<lambda>(n, e). is_dir e) entries
                            | File content \<Rightarrow> []"
  show ?case
  proof (cases "?cats \<noteq> []")
    case True
    obtain n m1 where c: "scan_categories py_str dumps (sort_key fst ?cats) m k = (n, m1)"
      by (cases "scan_categories py_str dumps (sort_key fst ?cats) m k")
    from scan_categories_rows [OF Cons.prems, of "sort_key fst ?cats" k] c
    have "\<forall>r \<in> set (records m1). \<exists>kvs c b.
             process_json_file py_str dumps (Inr (JDict kvs)) c b = (Some r, b + 1)" by simp
    from Cons.IH [OF this] f c True show ?thesis by (simp add: Let_def)
  next
    case False
    obtain n m1 where c: "scan_category_folder py_str dumps folder name m = (n, m1)"
      by (cases "scan_category_folder py_str dumps folder name m")
    from scan_category_folder_rows [OF Cons.prems, of folder name] c
    have "\<forall>r \<in> set (records m1). \<exists>kvs c b.
             process_json_file py_str dumps (Inr (JDict kvs)) c b = (Some r, b + 1)" by simp
    from Cons.IH [OF this] f c False show ?thesis by (simp add: Let_def)
  qed
qed

lemma run_rows:
  assumes "run py_str dumps csv_fault data_dir = Inr (ok, Some rows)"
  shows "\<forall>r \<in> set rows. \<exists>kvs c b.
             process_json_file py_str dumps (Inr (JDict kvs)) c b = (Some r, b + 1)"
proof -
  let ?m0 = "\<lparr>records = [], merger_auto_id = 1\<rparr>"
  from assms obtain n m where md: "merge_data py_str dumps data_dir ?m0 = Inr (n, m)"
    and rows: "rows = records m"
    by (auto simp: run_def write_csv_def split: sum.splits prod.splits if_splits option.splits)
  have start: "\<forall>r \<in> set (records ?m0). \<exists>kvs c b.
             process_json_file py_str dumps (Inr (JDict kvs)) c b = (Some r, b + 1)" by simp
  from md have "m = ?m0 \<or> (\<exists>folders. m = snd (scan_communities py_str dumps folders ?m0 0))"
    by (cases data_dir; simp add: merge_data_def Let_def split: fs_entry.splits)
       (metis snd_conv)
  then show ?thesis
  proof
    assume "m = ?m0"
    with rows show ?thesis by simp
  next
    assume "\<exists>folders. m = snd (scan_communities py_str dumps folders ?m0 0)"
    then obtain folders where m: "m = snd (scan_communities py_str dumps folders ?m0 0)" by blast
    from scan_communities_rows [OF start, of folders 0] show ?thesis unfolding rows m .
  qed
qed

text \<open>
  C8 (field defaulting), as the code has it. For the fields title, description, votes
  and url: \<^verbatim>\<open>None\<close> and a string that is empty or all whitespace become the empty
  string; any other string becomes the string without its leading and trailing
  whitespace; an empty list or dictionary becomes the empty string; every other value
  becomes \<^verbatim>\<open>str\<close> of it. The comments field becomes \<^verbatim>\<open>[]\<close> for \<^verbatim>\<open>None\<close> and for every
  other value that Python counts as false, the JSON text of the value when it is a
  non-empty string, list or dictionary (or \<^verbatim>\<open>[]\<close> if encoding raises), and raises for a
  true value that has no length, which drops the file. An item with votes \<^verbatim>\<open>None\<close>,
  comments \<^verbatim>\<open>[]\<close> and description \<^verbatim>\<open>""\<close> gives a row with votes and description empty
  and comments \<^verbatim>\<open>[]\<close>. For every parsed item file that is a dictionary,
  \<^verbatim>\<open>_process_json_file\<close> gives no row when the comments rule raises, and otherwise the
  row whose title, description, votes and url are the first rule applied to the value
  under that key (\<^verbatim>\<open>None\<close> for a missing key) and whose comments are the result of the
  comments rule, with the row counter as id, which is then advanced by one; a file that
  cannot be read or parsed, or whose content is not a dictionary, gives no row. Every
  row that a run of the flattener writes to the output is the row \<^verbatim>\<open>_process_json_file\<close>
  gives for a dictionary.
\<close>

theorem flattener_defaulting:
  "handle_null_value py_str JNull [] = []
   \<and> (strip s = [] \<longrightarrow> handle_null_value py_str (JStr s) [] = [])
   \<and> (strip s \<noteq> [] \<longrightarrow> handle_null_value py_str (JStr s) [] = strip s)
   \<and> handle_null_value py_str (JList []) [] = []
   \<and> handle_null_value py_str (JDict []) [] = []
   \<and> (v \<noteq> JNull \<and> (\<forall>t. v \<noteq> JStr t) \<and> v \<noteq> JList [] \<and> v \<noteq> JDict []
        \<longrightarrow> handle_null_value py_str v [] = py_str v)
   \<and> (\<not> truthy c \<longrightarrow> comments_to_json_string dumps c = Inr ''[]'')
   \<and> (truthy c \<and> py_len c = Inr n \<longrightarrow>
         comments_to_json_string dumps c = Inr (case dumps c of Inl e \<Rightarrow> ''[]'' | Inr t \<Rightarrow> t))
   \<and> (truthy c \<and> py_len c = Inl e \<longrightarrow> comments_to_json_string dumps c = Inl e)
   \<and> (map_of kvs ''votes'' = Some JNull \<and> map_of kvs ''comments'' = Some (JList [])
        \<and> map_of kvs ''description'' = Some (JStr [])
        \<longrightarrow> (\<exists>r. process_json_file py_str dumps (Inr (JDict kvs)) cat a = (Some r, a + 1)
                 \<and> auto_id r = a \<and> category r = cat
                 \<and> flat_votes r = [] \<and> flat_comments r = ''[]'' \<and> flat_description r = []
                 \<and> flat_title r
                      = handle_null_value py_str
                          (case map_of kvs ''title'' of None \<Rightarrow> JNull | Some x \<Rightarrow> x) []))
   \<and> process_json_file py_str dumps (Inr (JDict kvs)) cat a
       = (case comments_to_json_string dumps
                 (case map_of kvs ''comments'' of None \<Rightarrow> JNull | Some x \<Rightarrow> x) of
            Inl raised \<Rightarrow> (None, a)
          | Inr comments_string \<Rightarrow>
              (Some \<lparr>auto_id = a, category = cat,
                     flat_title = handle_null_value py_str
                        (case map_of kvs ''title'' of None \<Rightarrow> JNull | Some x \<Rightarrow> x) [],
                     flat_description = handle_null_value py_str
                        (case map_of kvs ''description'' of None \<Rightarrow> JNull | Some x \<Rightarrow> x) [],
                     flat_votes = handle_null_value py_str
                        (case map_of kvs ''votes'' of None \<Rightarrow> JNull | Some x \<Rightarrow> x) [],
                     flat_comments = comments_string,
                     flat_url = handle_null_value py_str
                        (case map_of kvs ''url'' of None \<Rightarrow> JNull | Some x \<Rightarrow> x) []\<rparr>,
               a + 1))
   \<and> process_json_file py_str dumps (Inl unreadable) cat a = (None, a)
   \<and> ((\<forall>items. parsed \<noteq> JDict items)
        \<longrightarrow> process_json_file py_str dumps (Inr parsed) cat a = (None, a))
   \<and> (run py_str dumps csv_fault data_dir = Inr (written, Some rows)
        \<longrightarrow> (\<forall>row \<in> set rows. \<exists>items folder b.
               process_json_file py_str dumps (Inr (JDict items)) folder b = (Some row, b + 1)))"
proof -
  have a: "handle_null_value py_str JNull [] = []" by (simp add: handle_null_value_def)
  have b: "strip s = [] \<longrightarrow> handle_null_value py_str (JStr s) [] = []"
    by (simp add: handle_null_value_def)
  have c: "strip s \<noteq> [] \<longrightarrow> handle_null_value py_str (JStr s) [] = strip s"
    by (simp add: handle_null_value_def)
  have d: "handle_null_value py_str (JList []) [] = []" by (simp add: handle_null_value_def)
  have e: "handle_null_value py_str (JDict []) [] = []" by (simp add: handle_null_value_def)
  have f: "v \<noteq> JNull \<and> (\<forall>t. v \<noteq> JStr t) \<and> v \<noteq> JList [] \<and> v \<noteq> JDict []
        \<longrightarrow> handle_null_value py_str v [] = py_str v"
    using handle_null_value_other by blast
  have st: "strip [] = []" by (simp add: strip_def)
  have g: "map_of kvs ''votes'' = Some JNull \<and> map_of kvs ''comments'' = Some (JList [])
        \<and> map_of kvs ''description'' = Some (JStr [])
        \<longrightarrow> (\<exists>r. process_json_file py_str dumps (Inr (JDict kvs)) cat a = (Some r, a + 1)
                 \<and> auto_id r = a \<and> category r = cat
                 \<and> flat_votes r = [] \<and> flat_comments r = ''[]'' \<and> flat_description r = []
                 \<and> flat_title r
                      = handle_null_value py_str
                          (case map_of kvs ''title'' of None \<Rightarrow> JNull | Some x \<Rightarrow> x) [])"
    by (simp add: process_json_file_def Let_def comments_to_json_string_def
          handle_null_value_def st)
  have h: "process_json_file py_str dumps (Inr (JDict kvs)) cat a
       = (case comments_to_json_string dumps
                 (case map_of kvs ''comments'' of None \<Rightarrow> JNull | Some x \<Rightarrow> x) of
            Inl raised \<Rightarrow> (None, a)
          | Inr comments_string \<Rightarrow>
              (Some \<lparr>auto_id = a, category = cat,
                     flat_title = handle_null_value py_str
                        (case map_of kvs ''title'' of None \<Rightarrow> JNull | Some x \<Rightarrow> x) [],
                     flat_description = handle_null_value py_str
                        (case map_of kvs ''description'' of None \<Rightarrow> JNull | Some x \<Rightarrow> x) [],
                     flat_votes = handle_null_value py_str
                        (case map_of kvs ''votes'' of None \<Rightarrow> JNull | Some x \<Rightarrow> x) [],
                     flat_comments = comments_string,
                     flat_url = handle_null_value py_str
                        (case map_of kvs ''url'' of None \<Rightarrow> JNull | Some x \<Rightarrow> x) []\<rparr>,
               a + 1))"
    by (simp add: process_json_file_def Let_def)
  have i: "process_json_file py_str dumps (Inl unreadable) cat a = (None, a)"
    by (simp add: process_json_file_def)
  have k: "(\<forall>items. parsed \<noteq> JDict items)
        \<longrightarrow> process_json_file py_str dumps (Inr parsed) cat a = (None, a)"
    by (cases parsed) (simp_all add: process_json_file_def)
  have l: "run py_str dumps csv_fault data_dir = Inr (written, Some rows)
        \<longrightarrow> (\<forall>row \<in> set rows. \<exists>items folder b.
               process_json_file py_str dumps (Inr (JDict items)) folder b = (Some row, b + 1))"
    using run_rows by blast
  note rules = comments_to_json_string_cases [of c dumps n e]
  show ?thesis
    apply (intro conjI)
    using a b c d e f g h i k l rules by blast+
qed

theorem flattener_defaulting_witness:
  "(let py_str = (\<lambda>v. case v of JInt i \<Rightarrow> (if i = 7 then ''7'' else ''?'') | _ \<Rightarrow> ''?'');
        dumps = (\<lambda>v. Inr ''[{...}]'');
        item = [(''title'', JStr '' A title ''), (''description'', JStr []), (''votes'', JNull),
                (''comments'', JList []), (''url'', JStr ''u'')];
        other = [(''votes'', JInt 7), (''comments'', JList [JDict []]), (''url'', JStr '' u '')]
    in strip '' A title '' \<noteq> []
       \<and> handle_null_value py_str (JStr '' A title '') [] = ''A title''
       \<and> handle_null_value py_str (JStr ''  '') [] = []
       \<and> handle_null_value py_str (JInt 7) [] = ''7''
       \<and> comments_to_json_string dumps (JInt 0) = Inr ''[]''
       \<and> comments_to_json_string dumps (JList [JDict []]) = Inr ''[{...}]''
       \<and> comments_to_json_string dumps (JInt 7) = Inl TypeError
       \<and> process_json_file py_str dumps (Inr (JDict item)) ''AskDesh'' 1
            = (Some \<lparr>auto_id = 1, category = ''AskDesh'', flat_title = ''A title'',
                      flat_description = [], flat_votes = [], flat_comments = ''[]'',
                      flat_url = ''u''\<rparr>, 2)
       \<and> process_json_file py_str dumps (Inr (JDict other)) ''AskDesh'' 2
            = (Some \<lparr>auto_id = 2, category = ''AskDesh'', flat_title = [],
                      flat_description = [], flat_votes = ''7'', flat_comments = ''[{...}]'',
                      flat_url = ''u''\<rparr>, 3)
       \<and> (\<forall>items. JList [] \<noteq> JDict items)
       \<and> process_json_file py_str dumps (Inr (JList [])) ''AskDesh'' 2 = (None, 2)
       \<and> run py_str dumps None
            (Some (Dir [(''r_bangladesh'',
                         Dir [(''AskDesh'', Dir [(''id_tracker.json'', File (Inr (JDict []))),
                                                (''1.json'', File (Inr (JDict item)))])])]))
            = Inr (True, Some [\<lparr>auto_id = 1, category = ''AskDesh'', flat_title = ''A title'',
                                 flat_description = [], flat_votes = [], flat_comments = ''[]'',
                                 flat_url = ''u''\<rparr>]))"
proof -
  let ?py_str = "\<lambda>v. case v of JInt i \<Rightarrow> (if i = 7 then ''7'' else ''?'') | _ \<Rightarrow> ''?''"
  let ?dumps = "\<lambda>v::json. (Inr ''[{...}]'' :: string result)"
  let ?item = "[(''title'', JStr '' A title ''), (''description'', JStr []), (''votes'', JNull),
                (''comments'', JList []), (''url'', JStr ''u'')]"
  have s1: "strip '' A title '' = ''A title''" by (simp add: strip_def py_isspace_def)
  have s2: "strip ''  '' = []" by (simp add: strip_def py_isspace_def)
  have s3: "strip ''u'' = ''u''" by (simp add: strip_def py_isspace_def)
  have s4: "strip [] = []" by (simp add: strip_def)
  let ?other = "[(''votes'', JInt 7), (''comments'', JList [JDict []]), (''url'', JStr '' u '')]"
  let ?data = "Some (Dir [(''r_bangladesh'',
                         Dir [(''AskDesh'', Dir [(''id_tracker.json'', File (Inr (JDict []))),
                                                (''1.json'', File (Inr (JDict ?item)))])])])"
  let ?row = "\<lparr>auto_id = 1, category = ''AskDesh'', flat_title = ''A title'',
                                 flat_description = [], flat_votes = [], flat_comments = ''[]'',
                                 flat_url = ''u''\<rparr>"
  have s5: "strip '' u '' = ''u''" by (simp add: strip_def py_isspace_def)
  note inst = flattener_defaulting
    [of ?py_str "'' A title ''" "JInt 7" "JInt 7" ?dumps 1 TypeError ?item "''AskDesh''" 1
        JSONDecodeError "JList []" None ?data True "[?row]"]
  note inst2 = flattener_defaulting
    [of ?py_str "'' A title ''" "JInt 7" "JInt 7" ?dumps 1 TypeError ?other "''AskDesh''" 2
        JSONDecodeError "JList []" None ?data True "[?row]"]
  from inst2 have "(\<forall>items. JList [] \<noteq> JDict items)
        \<longrightarrow> process_json_file ?py_str ?dumps (Inr (JList [])) ''AskDesh'' 2 = (None, 2)" by blast
  then have q: "process_json_file ?py_str ?dumps (Inr (JList [])) ''AskDesh'' 2 = (None, 2)" by simp
  have p2: "process_json_file ?py_str ?dumps (Inr (JDict ?other)) ''AskDesh'' 2
            = (Some \<lparr>auto_id = 2, category = ''AskDesh'', flat_title = [],
                      flat_description = [], flat_votes = ''7'', flat_comments = ''[{...}]'',
                      flat_url = ''u''\<rparr>, 3)"
    by (simp add: process_json_file_def Let_def comments_to_json_string_def
          handle_null_value_def s5)
  from inst have "strip '' A title '' \<noteq> []
      \<longrightarrow> handle_null_value ?py_str (JStr '' A title '') [] = strip '' A title ''" by blast
  with s1 have t1: "handle_null_value ?py_str (JStr '' A title '') [] = ''A title''" by simp
  have t2: "handle_null_value ?py_str (JStr ''  '') [] = []"
    by (simp add: handle_null_value_def s2)
  have t3: "handle_null_value ?py_str (JInt 7) [] = ''7''"
    by (simp add: handle_null_value_def)
  have c1: "comments_to_json_string ?dumps (JInt 0) = Inr ''[]''"
    by (simp add: comments_to_json_string_def)
  have c2: "comments_to_json_string ?dumps (JList [JDict []]) = Inr ''[{...}]''"
    by (simp add: comments_to_json_string_def)
  have c3: "comments_to_json_string ?dumps (JInt 7) = Inl TypeError"
    by (simp add: comments_to_json_string_def)
  have p: "process_json_file ?py_str ?dumps (Inr (JDict ?item)) ''AskDesh'' 1
            = (Some \<lparr>auto_id = 1, category = ''AskDesh'', flat_title = ''A title'',
                      flat_description = [], flat_votes = [], flat_comments = ''[]'',
                      flat_url = ''u''\<rparr>, 2)"
    by (simp add: process_json_file_def Let_def comments_to_json_string_def
          handle_null_value_def s1 s3 s4)
  have r: "run ?py_str ?dumps None ?data = Inr (True, Some [?row])"
    by (simp add: run_def merge_data_def scan_category_folder_def ends_with_def write_csv_def
          Let_def p)
  from inst r have "\<forall>row \<in> set [?row]. \<exists>items folder b.
      process_json_file ?py_str ?dumps (Inr (JDict items)) folder b = (Some row, b + 1)" by blast
  from s1 t1 t2 t3 c1 c2 c3 p p2 q r show ?thesis by (simp add: Let_def)
qed

text \<open>
  A string with surrounding whitespace does not become its own text: it is stripped.
\<close>

theorem flattener_strips_counterexample:
  "(\<forall>py_str. handle_null_value py_str (JStr '' hi '') [] = ''hi'') \<and> ''hi'' \<noteq> '' hi ''"
  by (simp add: handle_null_value_def strip_def py_isspace_def)

end
